theory Spec2Isabelle
  imports Main "HOL-Library.Monad_Syntax"
begin

section \<open>Template substitution\<close>

text \<open>
  \<^verbatim>\<open>apply_args\<close> (model.py) resolves a string with
  \<^verbatim>\<open>Template(x).safe_substitute(args)\<close>. The standard template pattern is
  \<^verbatim>\<open>\$(?:(?P<escaped>\$)|(?P<named>id)|{(?P<braced>id)}|(?P<invalid>))\<close>
  with \<^verbatim>\<open>id = (?a:[_a-z][_a-z0-9]*)\<close>, matched case-insensitively, and
  the string is scanned left to right for non-overlapping matches. A \<open>match\<close> is one
  piece of that scan: a character that is not the delimiter, or one of the four
  alternatives of the pattern.
\<close>

definition is_id_start :: "char \<Rightarrow> bool" where
  "is_id_start c \<longleftrightarrow> c \<in> set ''_abcdefghijklmnopqrstuvwxyzABCDEFGHIJKLMNOPQRSTUVWXYZ''"

definition is_id_char :: "char \<Rightarrow> bool" where
  "is_id_char c \<longleftrightarrow> is_id_start c \<or> c \<in> set ''0123456789''"

datatype match = Literal char | Escaped | Named string | Braced string | Invalid

text \<open>
  After \<^verbatim>\<open>${\<close>, the braced alternative matches when an identifier follows and
  the closing brace comes right after it. The identifier is matched greedily; a
  shorter one would be followed by an identifier character, never by the brace.
\<close>

definition closes_brace :: "string \<Rightarrow> bool" where
  "closes_brace ds \<longleftrightarrow> ds \<noteq> [] \<and> is_id_start (hd ds) \<and> dropWhile is_id_char ds \<noteq> []
     \<and> hd (dropWhile is_id_char ds) = CHR ''}''"

lemma dropWhile_shorter: "length (dropWhile P xs) < Suc (Suc (length xs))"
  using length_dropWhile_le [of P xs] by simp

lemma dropWhile_pred_shorter: "length (dropWhile P xs) - Suc 0 < Suc (Suc (length xs))"
  using length_dropWhile_le [of P xs] by simp

function (sequential) find_matches :: "string \<Rightarrow> match list" where
  "find_matches [] = []"
| "find_matches (c # cs) =
     (if c \<noteq> CHR ''$'' then Literal c # find_matches cs
      else (case cs of
          [] \<Rightarrow> [Invalid]
        | d # ds \<Rightarrow>
            if d = CHR ''$'' then Escaped # find_matches ds
            else if is_id_start d then
              Named (takeWhile is_id_char cs) # find_matches (dropWhile is_id_char cs)
            else if d = CHR ''{'' \<and> closes_brace ds then
              Braced (takeWhile is_id_char ds) # find_matches (tl (dropWhile is_id_char ds))
            else Invalid # find_matches cs))"
  by pat_completeness auto
termination
  by (relation "measure length") (auto simp: dropWhile_shorter dropWhile_pred_shorter)

declare find_matches.simps(2) [simp del]

text \<open>
  The replacement function of \<^verbatim>\<open>safe_substitute\<close>: a named or braced
  placeholder becomes the value of its name, or stays as it was written when the
  name is not a key of the mapping; the escape \<^verbatim>\<open>$$\<close> becomes one delimiter;
  an ill-formed delimiter stays.
\<close>

fun convert :: "(string \<times> string) list \<Rightarrow> match \<Rightarrow> string" where
  "convert args (Named n) = (case map_of args n of Some v \<Rightarrow> v | None \<Rightarrow> CHR ''$'' # n)"
| "convert args (Braced n) =
     (case map_of args n of Some v \<Rightarrow> v | None \<Rightarrow> ''${'' @ n @ ''}'')"
| "convert args Escaped = ''$''"
| "convert args Invalid = ''$''"
| "convert args (Literal c) = [c]"

definition safe_substitute :: "(string \<times> string) list \<Rightarrow> string \<Rightarrow> string" where
  "safe_substitute args template = concat (map (convert args) (find_matches template))"

text \<open>The text a match was read from.\<close>

fun matched_text :: "match \<Rightarrow> string" where
  "matched_text (Literal c) = [c]"
| "matched_text Escaped = ''$$''"
| "matched_text (Named n) = CHR ''$'' # n"
| "matched_text (Braced n) = ''${'' @ n @ ''}''"
| "matched_text Invalid = ''$''"

section \<open>Values and \<open>apply_args\<close>\<close>

text \<open>
  The values a specification holds once read from YAML. A mapping is an association
  list in insertion order; its keys are strings, as in every mapping of the data
  model. Storing under a key that is present replaces the value and keeps the key's
  position, as a Python \<^verbatim>\<open>dict\<close> does; \<open>dict_of_items\<close> is the mapping a
  dict comprehension or a dict display builds from its items, in order.
\<close>

datatype pyval =
    PNone
  | PBool bool
  | PInt int
  | PStr string
  | PList "pyval list"
  | PDict "(string \<times> pyval) list"

fun dict_set :: "('k \<times> 'v) list \<Rightarrow> 'k \<Rightarrow> 'v \<Rightarrow> ('k \<times> 'v) list" where
  "dict_set [] k v = [(k, v)]"
| "dict_set ((k', v') # d) k v = (if k' = k then (k', v) # d else (k', v') # dict_set d k v)"

definition dict_of_items :: "('k \<times> 'v) list \<Rightarrow> ('k \<times> 'v) list" where
  "dict_of_items items = foldl (\<lambda>d (k, v). dict_set d k v) [] items"

fun apply_args :: "pyval \<Rightarrow> (string \<times> string) list \<Rightarrow> pyval" where
  "apply_args (PStr x) args = PStr (safe_substitute args x)"
| "apply_args (PList x) args = PList (map (\<lambda>e. apply_args e args) x)"
| "apply_args (PDict x) args =
     PDict (dict_of_items (map (\<lambda>(k, v). (safe_substitute args k, apply_args v args)) x))"
| "apply_args x args = x"

section \<open>Steps\<close>

text \<open>
  The dataclass \<^verbatim>\<open>Step\<close>, each field at its declared type. A field whose
  default is \<^verbatim>\<open>None\<close> is an option; the list and mapping fields default to
  empty. A volume is a container path or a detail mapping; a user is a name or a
  numeric id.
\<close>

datatype volume = VolumePath string | VolumeDetail "(string \<times> string) list"

datatype user = UserName string | UserId int

record Step =
  name :: "string option"
  description :: "string option"
  image :: "string option"
  command :: "string list"
  volumes :: "(string \<times> volume) list"
  working_dir :: "string option"
  match_done :: "string list"
  match_in :: "string list"
  match_out :: "string list"
  match_summary :: "string list"
  environment :: "(string \<times> string) list"
  gpus :: "bool option"
  user :: "user option"
  network_mode :: "string option"
  mac_address :: "string option"

text \<open>
  \<open>apply_args\<close> at the type of each field: an optional string, a list of strings,
  a mapping of strings, the volumes mapping, the user. A boolean, an integer and
  \<^verbatim>\<open>None\<close> pass through. The functions \<open>py_str\<close> to \<open>py_user\<close> give the
  value each field holds; the lemmas \<open>apply_args_py_str\<close> to \<open>apply_args_py_user\<close>
  below show that \<open>apply_args\<close> on that value is the typed function.
\<close>

definition apply_args_str :: "string option \<Rightarrow> (string \<times> string) list \<Rightarrow> string option" where
  "apply_args_str x args = map_option (safe_substitute args) x"

definition apply_args_strs :: "string list \<Rightarrow> (string \<times> string) list \<Rightarrow> string list" where
  "apply_args_strs x args = map (safe_substitute args) x"

definition apply_args_dict ::
  "(string \<times> string) list \<Rightarrow> (string \<times> string) list \<Rightarrow> (string \<times> string) list" where
  "apply_args_dict x args =
     dict_of_items (map (\<lambda>(k, v). (safe_substitute args k, safe_substitute args v)) x)"

fun apply_args_volume :: "volume \<Rightarrow> (string \<times> string) list \<Rightarrow> volume" where
  "apply_args_volume (VolumePath p) args = VolumePath (safe_substitute args p)"
| "apply_args_volume (VolumeDetail d) args = VolumeDetail (apply_args_dict d args)"

definition apply_args_volumes ::
  "(string \<times> volume) list \<Rightarrow> (string \<times> string) list \<Rightarrow> (string \<times> volume) list" where
  "apply_args_volumes x args =
     dict_of_items (map (\<lambda>(k, v). (safe_substitute args k, apply_args_volume v args)) x)"

fun apply_args_user :: "user option \<Rightarrow> (string \<times> string) list \<Rightarrow> user option" where
  "apply_args_user (Some (UserName n)) args = Some (UserName (safe_substitute args n))"
| "apply_args_user x args = x"

definition py_str :: "string option \<Rightarrow> pyval" where
  "py_str x = (case x of None \<Rightarrow> PNone | Some s \<Rightarrow> PStr s)"

definition py_strs :: "string list \<Rightarrow> pyval" where
  "py_strs x = PList (map PStr x)"

definition py_dict :: "(string \<times> string) list \<Rightarrow> pyval" where
  "py_dict x = PDict (map (\<lambda>(k, v). (k, PStr v)) x)"

fun py_volume :: "volume \<Rightarrow> pyval" where
  "py_volume (VolumePath p) = PStr p"
| "py_volume (VolumeDetail d) = py_dict d"

definition py_volumes :: "(string \<times> volume) list \<Rightarrow> pyval" where
  "py_volumes x = PDict (map (\<lambda>(k, v). (k, py_volume v)) x)"

definition py_bool :: "bool option \<Rightarrow> pyval" where
  "py_bool x = (case x of None \<Rightarrow> PNone | Some b \<Rightarrow> PBool b)"

fun py_user :: "user option \<Rightarrow> pyval" where
  "py_user None = PNone"
| "py_user (Some (UserName n)) = PStr n"
| "py_user (Some (UserId i)) = PInt i"

definition Step_with_args_applied :: "Step \<Rightarrow> (string \<times> string) list \<Rightarrow> Step" where
  "Step_with_args_applied self args =
     \<lparr> name = apply_args_str (name self) args,
       description = apply_args_str (description self) args,
       image = apply_args_str (image self) args,
       command = apply_args_strs (command self) args,
       volumes = apply_args_volumes (volumes self) args,
       working_dir = apply_args_str (working_dir self) args,
       match_done = apply_args_strs (match_done self) args,
       match_in = apply_args_strs (match_in self) args,
       match_out = apply_args_strs (match_out self) args,
       match_summary = apply_args_strs (match_summary self) args,
       environment = apply_args_dict (environment self) args,
       gpus = gpus self,
       user = apply_args_user (user self) args,
       network_mode = apply_args_str (network_mode self) args,
       mac_address = apply_args_str (mac_address self) args \<rparr>"

text \<open>
  Truth values, as \<^verbatim>\<open>x or y\<close> tests them: \<^verbatim>\<open>None\<close>, the empty string, the
  empty list, \<^verbatim>\<open>False\<close> and \<^verbatim>\<open>0\<close> are false. \<open>py_or\<close> is \<^verbatim>\<open>x or y\<close>:
  \<open>x\<close> when it is true, \<open>y\<close> otherwise.
\<close>

definition truthy_str :: "string option \<Rightarrow> bool" where
  "truthy_str x = (case x of None \<Rightarrow> False | Some s \<Rightarrow> s \<noteq> [])"

definition truthy_list :: "'a list \<Rightarrow> bool" where
  "truthy_list x = (x \<noteq> [])"

definition truthy_bool :: "bool option \<Rightarrow> bool" where
  "truthy_bool x = (x = Some True)"

fun truthy_user :: "user option \<Rightarrow> bool" where
  "truthy_user None = False"
| "truthy_user (Some (UserName n)) = (n \<noteq> [])"
| "truthy_user (Some (UserId i)) = (i \<noteq> 0)"

definition py_or :: "('a \<Rightarrow> bool) \<Rightarrow> 'a \<Rightarrow> 'a \<Rightarrow> 'a" where
  "py_or truthy x y = (if truthy x then x else y)"

text \<open>
  \<^verbatim>\<open>Step._with_prototype_applied\<close>. The prototype is \<^verbatim>\<open>None\<close> or a Step, and
  a Step object is true. The two mapping fields are the dict displays
  \<^verbatim>\<open>{**prototype.volumes, **self.volumes}\<close> and
  \<^verbatim>\<open>{**prototype.environment, **self.environment}\<close>.
\<close>

fun Step_with_prototype_applied :: "Step \<Rightarrow> Step option \<Rightarrow> Step" where
  "Step_with_prototype_applied self None = self"
| "Step_with_prototype_applied self (Some prototype) =
     \<lparr> name = py_or truthy_str (name self) (name prototype),
       description = py_or truthy_str (description self) (description prototype),
       image = py_or truthy_str (image self) (image prototype),
       command = py_or truthy_list (command self) (command prototype),
       volumes = dict_of_items (volumes prototype @ volumes self),
       working_dir = py_or truthy_str (working_dir self) (working_dir prototype),
       match_done = py_or truthy_list (match_done self) (match_done prototype),
       match_in = py_or truthy_list (match_in self) (match_in prototype),
       match_out = py_or truthy_list (match_out self) (match_out prototype),
       match_summary = py_or truthy_list (match_summary self) (match_summary prototype),
       environment = dict_of_items (environment prototype @ environment self),
       gpus = py_or truthy_bool (gpus self) (gpus prototype),
       user = py_or truthy_user (user self) (user prototype),
       network_mode = py_or truthy_str (network_mode self) (network_mode prototype),
       mac_address = py_or truthy_str (mac_address self) (mac_address prototype) \<rparr>"

section \<open>Pipelines\<close>

record Pipeline =
  version :: string
  description :: "string option"
  args :: "(string \<times> string) list"
  prototype :: "Step option"
  steps :: "Step list"

text \<open>
  \<^verbatim>\<open>Pipeline._combine_args\<close>: every declared key, in declared order, with the
  given value when the key is given and the declared default otherwise.
\<close>

definition combine_args :: "Pipeline \<Rightarrow> (string \<times> string) list \<Rightarrow> (string \<times> string) list" where
  "combine_args self given =
     dict_of_items
       (map (\<lambda>(k, v). (k, case map_of given k of Some g \<Rightarrow> g | None \<Rightarrow> v)) (args self))"

definition Pipeline_with_args_applied :: "Pipeline \<Rightarrow> (string \<times> string) list \<Rightarrow> Pipeline" where
  "Pipeline_with_args_applied self given =
     (let combined_args = combine_args self given;
          amended_prototype =
            (case prototype self of
               Some p \<Rightarrow> Some (Step_with_args_applied p combined_args)
             | None \<Rightarrow> None)
      in \<lparr> version = version self,
           description = Pipeline.description self,
           args = combined_args,
           prototype = amended_prototype,
           steps = map (\<lambda>step. Step_with_args_applied step combined_args) (steps self) \<rparr>)"

definition Pipeline_with_prototype_applied :: "Pipeline \<Rightarrow> Pipeline" where
  "Pipeline_with_prototype_applied self =
     \<lparr> version = version self,
       description = Pipeline.description self,
       args = args self,
       prototype = prototype self,
       steps = map (\<lambda>step. Step_with_prototype_applied step (prototype self)) (steps self) \<rparr>"

text \<open>The amendment, as \<^verbatim>\<open>run_pipeline\<close> computes it.\<close>

definition amend :: "Pipeline \<Rightarrow> (string \<times> string) list \<Rightarrow> Pipeline" where
  "amend original given = Pipeline_with_prototype_applied (Pipeline_with_args_applied original given)"

section \<open>Execution records\<close>

text \<open>
  An instant is a count of microseconds; a \<open>Timing\<close> keeps the instant where the
  source keeps its ISO-8601 text, and the duration as the microseconds between two
  instants where the source keeps \<^verbatim>\<open>total_seconds()\<close>, that count divided by
  \<open>10\<^sup>6\<close>. The result of the file matcher maps a volume directory to the files
  matched in it, each with its content digest. A path is the pair of
  \<^verbatim>\<open>Path(execution_path, file_name)\<close>.
\<close>

type_synonym datetime = int

type_synonym matches = "(string \<times> (string \<times> string) list) list"

datatype path = Path string string

datatype error = AttributeError | TypeError

record Timing =
  start :: "datetime option"
  finish :: "datetime option"
  duration :: "int option"

text \<open>
  \<^verbatim>\<open>Timing._is_complete\<close>. The comparison \<^verbatim>\<open>self.duration > 0\<close> raises
  a \<^verbatim>\<open>TypeError\<close> when it is reached with no duration.
\<close>

definition Timing_is_complete :: "Timing \<Rightarrow> error + bool" where
  "Timing_is_complete self =
     (if start self \<noteq> None \<and> finish self \<noteq> None
      then (case duration self of None \<Rightarrow> Inl TypeError | Some d \<Rightarrow> Inr (d > 0))
      else Inr False)"

record StepResult =
  name :: "string option"
  image_id :: "string option"
  exit_code :: "int option"
  log_file :: "path option"
  timing :: "Timing option"
  files_done :: matches
  files_in :: matches
  files_out :: matches
  files_summary :: matches
  skipped :: bool

record ExecutionRecord =
  original :: "Pipeline option"
  amended :: "Pipeline option"
  timing :: "Timing option"
  step_results :: "StepResult list"

section \<open>The container engine, the file matcher and the clock\<close>

text \<open>
  What one pass through the \<^verbatim>\<open>try\<close> block of \<^verbatim>\<open>run_container\<close> meets.
  An exception is an \<^verbatim>\<open>APIError\<close> (with the answer of
  \<^verbatim>\<open>is_client_error()\<close> and its explanation), another \<^verbatim>\<open>DockerException\<close>,
  or any other exception, each with its text. The attempt raises before the step
  log is opened (in \<^verbatim>\<open>docker.from_env\<close>, \<^verbatim>\<open>containers.run\<close> or
  \<^verbatim>\<open>container.logs\<close>); or it raises once the log is open, after the listed
  chunks have been written (while streaming, in \<^verbatim>\<open>container.wait\<close> or in
  \<^verbatim>\<open>container.remove\<close>); or it completes, with the chunks streamed, the
  status code and the id of the container's image.

  The environment is three oracles: the engine answers its \<open>n\<close>-th request, the
  file matcher its \<open>n\<close>-th query, the clock its \<open>n\<close>-th reading. The world is what
  the run has done so far: the requests made to the engine (the step stands for
  the request built from it), the numbers of queries and readings, and the text of
  the log files. Writing a log file is taken to succeed; the process-wide log is
  not part of the model.
\<close>

datatype exn = APIError bool string | DockerException string | UnexpectedException string

datatype attempt =
    RaisedBeforeLog exn
  | RaisedAfterLog "string list" exn
  | Completed "string list" int string

record env =
  engine :: "nat \<Rightarrow> Step \<Rightarrow> attempt"
  match_patterns_in_dirs :: "nat \<Rightarrow> string list \<Rightarrow> string list \<Rightarrow> matches"
  now :: "nat \<Rightarrow> datetime"

record world =
  containers_run :: "Step list"
  queries_made :: nat
  clock_reads :: nat
  log_files :: "path \<Rightarrow> string option"

definition datetime_now :: "env \<Rightarrow> world \<Rightarrow> datetime \<times> world" where
  "datetime_now e w = (now e (clock_reads w), w\<lparr>clock_reads := Suc (clock_reads w)\<rparr>)"

definition match_files :: "env \<Rightarrow> string list \<Rightarrow> string list \<Rightarrow> world \<Rightarrow> matches \<times> world" where
  "match_files e dirs patterns w =
     (match_patterns_in_dirs e (queries_made w) dirs patterns,
      w\<lparr>queries_made := Suc (queries_made w)\<rparr>)"

text \<open>
  Opening a file with mode \<^verbatim>\<open>'w'\<close> and writing, and with mode \<^verbatim>\<open>'a'\<close>.
  Both succeed here; an \<^verbatim>\<open>OSError\<close> from \<^verbatim>\<open>open\<close> is not part of the
  model.
\<close>

definition write_file :: "world \<Rightarrow> path \<Rightarrow> string \<Rightarrow> world" where
  "write_file w p txt = w\<lparr>log_files := (log_files w)(p \<mapsto> txt)\<rparr>"

definition append_file :: "world \<Rightarrow> path \<Rightarrow> string \<Rightarrow> world" where
  "append_file w p txt =
     w\<lparr>log_files := (log_files w)(p \<mapsto> (case log_files w p of None \<Rightarrow> [] | Some old \<Rightarrow> old) @ txt)\<rparr>"

text \<open>Decimal text of an integer, as an f-string prints it.\<close>

fun str_nat :: "nat \<Rightarrow> string" where
  "str_nat n =
     (if n < 10 then [''0123456789'' ! n]
      else str_nat (n div 10) @ [''0123456789'' ! (n mod 10)])"

definition str_int :: "int \<Rightarrow> string" where
  "str_int i = (if i < 0 then CHR ''-'' # str_nat (nat (- i)) else str_nat (nat i))"

definition retry_log_message :: "int \<Rightarrow> int \<Rightarrow> string" where
  "retry_log_message attempts max_attempts =
     ''Container attempts/retries at '' @ str_int attempts @ '' out of ''
       @ str_int max_attempts @ ''.'' @ [CHR 0x0A]"

section \<open>The container run loop\<close>

text \<open>
  The body of the \<^verbatim>\<open>try\<close> block: the request is made; when the attempt gets as
  far as streaming, the step log is opened with mode \<^verbatim>\<open>'w'\<close> and the chunks
  are written to it. The result is the exception raised, or the image id and
  status code returned.
\<close>

definition try_container :: "env \<Rightarrow> Step \<Rightarrow> path \<Rightarrow> world \<Rightarrow> (exn + string \<times> int) \<times> world" where
  "try_container e step log_path w =
     (let w1 = w\<lparr>containers_run := containers_run w @ [step]\<rparr> in
      case engine e (length (containers_run w)) step of
        RaisedBeforeLog x \<Rightarrow> (Inl x, w1)
      | RaisedAfterLog chunks x \<Rightarrow> (Inl x, write_file w1 log_path (concat chunks))
      | Completed chunks status_code img \<Rightarrow>
          (Inr (img, status_code), write_file w1 log_path (concat chunks)))"

text \<open>
  The \<^verbatim>\<open>while\<close> loop of \<^verbatim>\<open>run_container\<close>, from a given state of
  \<^verbatim>\<open>retried_exception\<close> and \<^verbatim>\<open>attempts\<close>. The returned container is
  kept as the id of its image, the one thing the caller reads from it.
\<close>

function run_container_loop ::
  "env \<Rightarrow> Step \<Rightarrow> path \<Rightarrow> int \<Rightarrow> exn option \<Rightarrow> int \<Rightarrow> world
     \<Rightarrow> (string option \<times> int \<times> exn option) \<times> world" where
  "run_container_loop e step log_path max_attempts retried_exception attempts w =
     (if attempts < max_attempts then
        (case try_container e step log_path w of
           (Inr (img, status_code), w1) \<Rightarrow> ((Some img, status_code, None), w1)
         | (Inl (APIError is_client_error explanation), w1) \<Rightarrow>
             if is_client_error
             then ((None, - 1, Some (APIError is_client_error explanation)), w1)
             else run_container_loop e step log_path max_attempts
                    (Some (APIError is_client_error explanation)) (attempts + 1)
                    (append_file w1 log_path (retry_log_message (attempts + 1) max_attempts))
         | (Inl (DockerException msg), w1) \<Rightarrow> ((None, - 1, Some (DockerException msg)), w1)
         | (Inl (UnexpectedException msg), w1) \<Rightarrow>
             run_container_loop e step log_path max_attempts
               (Some (UnexpectedException msg)) (attempts + 1)
               (append_file w1 log_path (retry_log_message (attempts + 1) max_attempts)))
      else ((None, - 1, retried_exception), w))"
  by pat_completeness auto
termination
  by (relation "measure (\<lambda>(e, step, log_path, max_attempts, retried_exception, attempts, w).
        nat (max_attempts - attempts))") auto

definition run_container ::
  "env \<Rightarrow> Step \<Rightarrow> path \<Rightarrow> int \<Rightarrow> world \<Rightarrow> (string option \<times> int \<times> exn option) \<times> world" where
  "run_container e step log_path max_attempts w =
     run_container_loop e step log_path max_attempts None 0 w"

section \<open>Running a step and a pipeline\<close>

text \<open>
  The line \<^verbatim>\<open>"<ErrorKind>: <details>"\<close> written to the step log on failure.
  The source prints the name of the exception's own class, which may be a subclass
  of the class the handler caught, and for an exception other than an
  \<^verbatim>\<open>APIError\<close> its \<^verbatim>\<open>args\<close> tuple; here the line has the name of the
  class the handler caught and the text of the exception.
\<close>

fun error_message :: "exn \<Rightarrow> string" where
  "error_message (APIError is_client_error explanation) =
     ''APIError: '' @ explanation @ [CHR 0x0A]"
| "error_message (DockerException msg) = ''DockerException: '' @ msg @ [CHR 0x0A]"
| "error_message (UnexpectedException msg) = ''Exception: '' @ msg @ [CHR 0x0A]"

definition run_step :: "env \<Rightarrow> Step \<Rightarrow> path \<Rightarrow> bool \<Rightarrow> world \<Rightarrow> StepResult \<times> world" where
  "run_step e step log_path force_rerun w =
     (let (t0, w1) = datetime_now e w;
          volume_dirs = map fst (volumes step);
          (done_files, w2) = match_files e volume_dirs (match_done step) w1
      in if done_files \<noteq> [] \<and> \<not> force_rerun then
           (\<lparr> name = Step.name step, image_id = None, exit_code = None, log_file = None,
               timing = Some \<lparr>start = Some t0, finish = None, duration = None\<rparr>,
               files_done = done_files, files_in = [], files_out = [], files_summary = [],
               skipped = True \<rparr>, w2)
         else
           (let (inputs, w3) = match_files e volume_dirs (match_in step) w2;
                ((container, code, exception), w4) = run_container e step log_path 3 w3
            in case exception of
                 Some x \<Rightarrow>
                   (\<lparr> name = Step.name step, image_id = None, exit_code = Some code,
                       log_file = Some log_path,
                       timing = Some \<lparr>start = Some t0, finish = None, duration = None\<rparr>,
                       files_done = [], files_in = [], files_out = [], files_summary = [],
                       skipped = False \<rparr>,
                    append_file w4 log_path (error_message x))
               | None \<Rightarrow>
                   (let (outputs, w5) = match_files e volume_dirs (match_out step) w4;
                        (summary, w6) = match_files e volume_dirs (match_summary step) w5;
                        (t1, w7) = datetime_now e w6
                    in (\<lparr> name = Step.name step, image_id = container,
                           exit_code = Some code, log_file = Some log_path,
                           timing = Some \<lparr>start = Some t0, finish = Some t1,
                                           duration = Some (t1 - t0)\<rparr>,
                           files_done = done_files, files_in = inputs, files_out = outputs,
                           files_summary = summary, skipped = False \<rparr>, w7))))"

text \<open>
  The loop of \<^verbatim>\<open>run_pipeline\<close> over the amended steps. \<^verbatim>\<open>step_names\<close> is
  \<^verbatim>\<open>None\<close> or a list, and filters only when it is a list that is not empty. A
  step that is run and has no name raises \<^verbatim>\<open>AttributeError\<close> at
  \<^verbatim>\<open>step.name.replace\<close>. An exit code is true when it is set and not zero.
\<close>

definition log_stem :: "string \<Rightarrow> string" where
  "log_stem n = map (\<lambda>c. if c = CHR '' '' then CHR ''_'' else c) n"

definition ignored :: "string list option \<Rightarrow> Step \<Rightarrow> bool" where
  "ignored step_names step =
     (case step_names of
        None \<Rightarrow> False
      | Some ns \<Rightarrow> ns \<noteq> [] \<and> Step.name step \<notin> set (map Some ns))"

definition truthy_int :: "int option \<Rightarrow> bool" where
  "truthy_int x = (case x of None \<Rightarrow> False | Some i \<Rightarrow> i \<noteq> 0)"

fun run_steps ::
  "env \<Rightarrow> string \<Rightarrow> bool \<Rightarrow> string list option \<Rightarrow> Step list \<Rightarrow> world
     \<Rightarrow> error + StepResult list \<times> world" where
  "run_steps e execution_path force_rerun step_names [] w = Inr ([], w)"
| "run_steps e execution_path force_rerun step_names (step # rest) w =
     (if ignored step_names step then run_steps e execution_path force_rerun step_names rest w
      else (case Step.name step of
          None \<Rightarrow> Inl AttributeError
        | Some n \<Rightarrow>
            (let log_path = Path execution_path (log_stem n @ ''.log'');
                 (step_result, w1) = run_step e step log_path force_rerun w
             in if truthy_int (exit_code step_result) then Inr ([step_result], w1)
                else (case run_steps e execution_path force_rerun step_names rest w1 of
                    Inl err \<Rightarrow> Inl err
                  | Inr (later, w2) \<Rightarrow> Inr (step_result # later, w2)))))"

definition run_pipeline ::
  "env \<Rightarrow> Pipeline \<Rightarrow> string \<Rightarrow> (string \<times> string) list \<Rightarrow> bool \<Rightarrow> string list option \<Rightarrow> world
     \<Rightarrow> error + ExecutionRecord \<times> world" where
  "run_pipeline e orig execution_path given force_rerun step_names w =
     (let (t0, w1) = datetime_now e w;
          amended_pipeline = amend orig given
      in case run_steps e execution_path force_rerun step_names (steps amended_pipeline) w1 of
           Inl err \<Rightarrow> Inl err
         | Inr (results, w2) \<Rightarrow>
             (let (t1, w3) = datetime_now e w2
              in Inr (\<lparr> original = Some orig, amended = Some amended_pipeline,
                        timing = Some \<lparr>start = Some t0, finish = Some t1,
                                        duration = Some (t1 - t0)\<rparr>,
                        step_results = results \<rparr>, w3)))"

section \<open>Objects in a store\<close>

text \<open>
  The functional model above takes a pipeline as a value. To state what the
  amendment does to the objects it is given, this section runs the same code on a
  store. \<^verbatim>\<open>None\<close>, booleans, integers and strings are immutable and are held
  by value; lists, mappings and the instances of \<^verbatim>\<open>Step\<close> and
  \<^verbatim>\<open>Pipeline\<close> are objects, held by reference. The store is the list of the
  objects allocated so far, and a reference is an index into it. An instance is its
  class name and its attributes. Every function returns \<^verbatim>\<open>Some\<close> of its result
  and the new store, or \<^verbatim>\<open>None\<close> where the code raises (an attribute or key
  that is missing, an operand of the wrong type) or the recursion budget is spent.
\<close>

datatype hval = HNone | HBool bool | HInt int | HStr string | HRef nat

datatype hobj =
    HList "hval list"
  | HDict "(string \<times> hval) list"
  | HObject string "(string \<times> hval) list"

type_synonym heap = "hobj list"

definition alloc :: "hobj \<Rightarrow> heap \<Rightarrow> hval \<times> heap" where
  "alloc obj h = (HRef (length h), h @ [obj])"

fun deref :: "heap \<Rightarrow> hval \<Rightarrow> hobj option" where
  "deref h (HRef r) = (if r < length h then Some (h ! r) else None)"
| "deref h x = None"

definition getattr :: "heap \<Rightarrow> hval \<Rightarrow> string \<Rightarrow> hval option" where
  "getattr h x attr =
     (case deref h x of Some (HObject cls attrs) \<Rightarrow> map_of attrs attr | _ \<Rightarrow> None)"

definition list_items :: "heap \<Rightarrow> hval \<Rightarrow> hval list option" where
  "list_items h x = (case deref h x of Some (HList xs) \<Rightarrow> Some xs | _ \<Rightarrow> None)"

definition dict_items :: "heap \<Rightarrow> hval \<Rightarrow> (string \<times> hval) list option" where
  "dict_items h x = (case deref h x of Some (HDict d) \<Rightarrow> Some d | _ \<Rightarrow> None)"

fun setitem :: "heap \<Rightarrow> hval \<Rightarrow> string \<Rightarrow> hval \<Rightarrow> heap option" where
  "setitem h (HRef r) k v =
     (if r < length h then
        (case h ! r of HDict d \<Rightarrow> Some (h[r := HDict (dict_set d k v)]) | _ \<Rightarrow> None)
      else None)"
| "setitem h x k v = None"

text \<open>Truth of a value: a list or mapping is true when it is not empty, an instance always.\<close>

fun truthy_h :: "heap \<Rightarrow> hval \<Rightarrow> bool" where
  "truthy_h h HNone = False"
| "truthy_h h (HBool b) = b"
| "truthy_h h (HInt i) = (i \<noteq> 0)"
| "truthy_h h (HStr s) = (s \<noteq> [])"
| "truthy_h h (HRef r) =
     (case deref h (HRef r) of
        Some (HList xs) \<Rightarrow> xs \<noteq> []
      | Some (HDict d) \<Rightarrow> d \<noteq> []
      | _ \<Rightarrow> True)"

text \<open>
  \<^verbatim>\<open>safe_substitute\<close> reads the mapping of arguments from the store when it is
  called, and takes \<^verbatim>\<open>str\<close> of the value it finds. The values are scalars,
  as the declared type \<^verbatim>\<open>dict[str, str]\<close> has them; with a list or a mapping
  among them, which the source would print, the result here is \<^verbatim>\<open>None\<close>.
\<close>

fun str_of :: "hval \<Rightarrow> string option" where
  "str_of (HStr s) = Some s"
| "str_of (HInt i) = Some (str_int i)"
| "str_of (HBool b) = Some (if b then ''True'' else ''False'')"
| "str_of HNone = Some ''None''"
| "str_of (HRef r) = None"

fun str_values :: "(string \<times> hval) list \<Rightarrow> (string \<times> string) list option" where
  "str_values [] = Some []"
| "str_values ((k, v) # d) = do { s \<leftarrow> str_of v; rest \<leftarrow> str_values d; Some ((k, s) # rest) }"

definition substitute_h :: "heap \<Rightarrow> hval \<Rightarrow> string \<Rightarrow> string option" where
  "substitute_h h a s = do { d \<leftarrow> dict_items h a; m \<leftarrow> str_values d; Some (safe_substitute m s) }"

text \<open>
  A comprehension evaluates its element expression on each item in turn, each
  evaluation starting from the store the one before left.
\<close>

primrec map_heap ::
  "(hval \<Rightarrow> heap \<Rightarrow> (hval \<times> heap) option) \<Rightarrow> hval list \<Rightarrow> heap \<Rightarrow> (hval list \<times> heap) option" where
  "map_heap f [] h = Some ([], h)"
| "map_heap f (x # xs) h =
     do { (y, h1) \<leftarrow> f x h; (ys, h2) \<leftarrow> map_heap f xs h1; Some (y # ys, h2) }"

primrec map_heap_items ::
  "(string \<Rightarrow> heap \<Rightarrow> string option) \<Rightarrow> (hval \<Rightarrow> heap \<Rightarrow> (hval \<times> heap) option)
     \<Rightarrow> (string \<times> hval) list \<Rightarrow> heap \<Rightarrow> ((string \<times> hval) list \<times> heap) option" where
  "map_heap_items fk fv [] h = Some ([], h)"
| "map_heap_items fk fv (kv # d) h =
     do { k' \<leftarrow> fk (fst kv) h; (v', h1) \<leftarrow> fv (snd kv) h;
          (rest, h2) \<leftarrow> map_heap_items fk fv d h1; Some ((k', v') # rest, h2) }"

text \<open>
  \<^verbatim>\<open>apply_args\<close>: a string is substituted; a list and a mapping give a new
  list and a new mapping; anything else, an instance included, is returned as it
  is. The first argument bounds the depth of the recursion.
\<close>

fun apply_args_h :: "nat \<Rightarrow> hval \<Rightarrow> hval \<Rightarrow> heap \<Rightarrow> (hval \<times> heap) option" where
  "apply_args_h 0 x a h = None"
| "apply_args_h (Suc n) (HStr s) a h = do { s' \<leftarrow> substitute_h h a s; Some (HStr s', h) }"
| "apply_args_h (Suc n) (HRef r) a h =
     (case deref h (HRef r) of
        None \<Rightarrow> None
      | Some (HList xs) \<Rightarrow>
          do { (ys, h1) \<leftarrow> map_heap (\<lambda>e. apply_args_h n e a) xs h;
               Some (alloc (HList ys) h1) }
      | Some (HDict d) \<Rightarrow>
          do { (kvs, h1) \<leftarrow> map_heap_items (\<lambda>k h'. substitute_h h' a k) (\<lambda>e. apply_args_h n e a) d h;
               Some (alloc (HDict (dict_of_items kvs)) h1) }
      | Some (HObject cls attrs) \<Rightarrow> Some (HRef r, h))"
| "apply_args_h (Suc n) x a h = Some (x, h)"

text \<open>
  \<^verbatim>\<open>Step._with_args_applied\<close> reads each attribute of \<^verbatim>\<open>self\<close> in the order
  of the keywords of the constructor call, applies the arguments to it, and
  allocates the new instance.
\<close>

definition step_fields :: "string list" where
  "step_fields = [''name'', ''description'', ''image'', ''command'', ''volumes'', ''working_dir'',
     ''match_done'', ''match_in'', ''match_out'', ''match_summary'', ''environment'', ''gpus'',
     ''network_mode'', ''mac_address'', ''user'']"

primrec apply_fields ::
  "nat \<Rightarrow> hval \<Rightarrow> hval \<Rightarrow> string list \<Rightarrow> heap \<Rightarrow> ((string \<times> hval) list \<times> heap) option" where
  "apply_fields n self a [] h = Some ([], h)"
| "apply_fields n self a (f # fs) h =
     do { v \<leftarrow> getattr h self f; (v', h1) \<leftarrow> apply_args_h n v a h;
          (rest, h2) \<leftarrow> apply_fields n self a fs h1; Some ((f, v') # rest, h2) }"

definition Step_with_args_applied_h :: "nat \<Rightarrow> hval \<Rightarrow> hval \<Rightarrow> heap \<Rightarrow> (hval \<times> heap) option" where
  "Step_with_args_applied_h n self a h =
     do { (attrs, h1) \<leftarrow> apply_fields n self a step_fields h;
          Some (alloc (HObject ''Step'' attrs) h1) }"

text \<open>
  \<^verbatim>\<open>Step._with_prototype_applied\<close> returns \<^verbatim>\<open>self\<close> itself when the prototype
  is false. Otherwise \<^verbatim>\<open>volumes\<close> and \<^verbatim>\<open>environment\<close> are new mappings, and
  every other attribute is \<^verbatim>\<open>self.x or prototype.x\<close>: the value of one of the
  two, not a copy.
\<close>

definition merge_field :: "hval \<Rightarrow> hval \<Rightarrow> string \<Rightarrow> heap \<Rightarrow> (hval \<times> heap) option" where
  "merge_field self proto f h =
     (if f = ''volumes'' \<or> f = ''environment'' then
        do { pv \<leftarrow> getattr h proto f; pd \<leftarrow> dict_items h pv;
             sv \<leftarrow> getattr h self f; sd \<leftarrow> dict_items h sv;
             Some (alloc (HDict (dict_of_items (pd @ sd))) h) }
      else
        do { sv \<leftarrow> getattr h self f;
             if truthy_h h sv then Some (sv, h)
             else do { pv \<leftarrow> getattr h proto f; Some (pv, h) } })"

primrec merge_fields ::
  "hval \<Rightarrow> hval \<Rightarrow> string list \<Rightarrow> heap \<Rightarrow> ((string \<times> hval) list \<times> heap) option" where
  "merge_fields self proto [] h = Some ([], h)"
| "merge_fields self proto (f # fs) h =
     do { (v, h1) \<leftarrow> merge_field self proto f h;
          (rest, h2) \<leftarrow> merge_fields self proto fs h1; Some ((f, v) # rest, h2) }"

definition Step_with_prototype_applied_h :: "hval \<Rightarrow> hval \<Rightarrow> heap \<Rightarrow> (hval \<times> heap) option" where
  "Step_with_prototype_applied_h self proto h =
     (if \<not> truthy_h h proto then Some (self, h)
      else do { (attrs, h1) \<leftarrow> merge_fields self proto step_fields h;
                Some (alloc (HObject ''Step'' attrs) h1) })"

text \<open>
  \<^verbatim>\<open>Pipeline._combine_args\<close> allocates an empty mapping and stores into it, key
  by key: the one place where the amendment writes to an object that exists.
\<close>

primrec accept_args :: "hval \<Rightarrow> hval \<Rightarrow> hval \<Rightarrow> string list \<Rightarrow> heap \<Rightarrow> heap option" where
  "accept_args self given accepted [] h = Some h"
| "accept_args self given accepted (k # ks) h =
     do { g \<leftarrow> dict_items h given;
          v \<leftarrow> (case map_of g k of
                  Some v \<Rightarrow> Some v
                | None \<Rightarrow> do { declared \<leftarrow> getattr h self ''args'';
                               d \<leftarrow> dict_items h declared; map_of d k });
          h1 \<leftarrow> setitem h accepted k v;
          accept_args self given accepted ks h1 }"

definition Pipeline_combine_args_h :: "hval \<Rightarrow> hval \<Rightarrow> heap \<Rightarrow> (hval \<times> heap) option" where
  "Pipeline_combine_args_h self given h =
     (case alloc (HDict []) h of (accepted, h1) \<Rightarrow>
        do { declared \<leftarrow> getattr h1 self ''args''; d \<leftarrow> dict_items h1 declared;
             h2 \<leftarrow> accept_args self given accepted (map fst d) h1;
             Some (accepted, h2) })"

definition Pipeline_with_args_applied_h ::
  "nat \<Rightarrow> hval \<Rightarrow> hval \<Rightarrow> heap \<Rightarrow> (hval \<times> heap) option" where
  "Pipeline_with_args_applied_h n self given h =
     do { (combined, h1) \<leftarrow> Pipeline_combine_args_h self given h;
          proto \<leftarrow> getattr h1 self ''prototype'';
          (amended_prototype, h2) \<leftarrow>
            (if truthy_h h1 proto then Step_with_args_applied_h n proto combined h1
             else Some (HNone, h1));
          v \<leftarrow> getattr h2 self ''version'';
          d \<leftarrow> getattr h2 self ''description'';
          ss \<leftarrow> getattr h2 self ''steps'';
          xs \<leftarrow> list_items h2 ss;
          (ys, h3) \<leftarrow> map_heap (\<lambda>step. Step_with_args_applied_h n step combined) xs h2;
          (case alloc (HList ys) h3 of (new_steps, h4) \<Rightarrow>
             Some (alloc (HObject ''Pipeline''
                     [(''version'', v), (''description'', d), (''args'', combined),
                      (''prototype'', amended_prototype), (''steps'', new_steps)]) h4)) }"

definition Pipeline_with_prototype_applied_h :: "hval \<Rightarrow> heap \<Rightarrow> (hval \<times> heap) option" where
  "Pipeline_with_prototype_applied_h self h =
     do { v \<leftarrow> getattr h self ''version'';
          d \<leftarrow> getattr h self ''description'';
          a \<leftarrow> getattr h self ''args'';
          p \<leftarrow> getattr h self ''prototype'';
          ss \<leftarrow> getattr h self ''steps'';
          xs \<leftarrow> list_items h ss;
          (ys, h1) \<leftarrow> map_heap
             (\<lambda>step h'. do { proto \<leftarrow> getattr h' self ''prototype'';
                              Step_with_prototype_applied_h step proto h' }) xs h;
          (case alloc (HList ys) h1 of (new_steps, h2) \<Rightarrow>
             Some (alloc (HObject ''Pipeline''
                     [(''version'', v), (''description'', d), (''args'', a),
                      (''prototype'', p), (''steps'', new_steps)]) h2)) }"

definition amend_h :: "nat \<Rightarrow> hval \<Rightarrow> hval \<Rightarrow> heap \<Rightarrow> (hval \<times> heap) option" where
  "amend_h n orig given h =
     do { (p, h1) \<leftarrow> Pipeline_with_args_applied_h n orig given h;
          Pipeline_with_prototype_applied_h p h1 }"

section \<open>Properties of templates and values\<close>

text \<open>
  Notions the statements below use. A string has an escape when two delimiters
  stand side by side. A match is resolved by a mapping when it is a literal
  character or a placeholder whose name is a key; a string is fully resolved when
  every match of its scan is. A string is plain when it holds no delimiter.
  \<open>strings_all P\<close> says that \<open>P\<close> holds of every string of a value, keys
  included; \<open>dicts_distinct\<close> that no mapping in it lists a key twice, as is the
  case of every Python \<^verbatim>\<open>dict\<close>.
\<close>

fun has_escape :: "string \<Rightarrow> bool" where
  "has_escape (c # d # cs) = ((c = CHR ''$'' \<and> d = CHR ''$'') \<or> has_escape (d # cs))"
| "has_escape cs = False"





fun strings_all :: "(string \<Rightarrow> bool) \<Rightarrow> pyval \<Rightarrow> bool" where
  "strings_all P (PStr s) = P s"
| "strings_all P (PList xs) = list_all (strings_all P) xs"
| "strings_all P (PDict d) = list_all (\<lambda>(k, v). P k \<and> strings_all P v) d"
| "strings_all P x = True"

fun dicts_distinct :: "pyval \<Rightarrow> bool" where
  "dicts_distinct (PList xs) = list_all dicts_distinct xs"
| "dicts_distinct (PDict d) = (distinct (map fst d) \<and> list_all (\<lambda>(k, v). dicts_distinct v) d)"
| "dicts_distinct x = True"

text \<open>
  The values of the fields of a step, and the two notions above on a step: no
  string of it has an escape; no mapping of it lists a key twice.
\<close>

definition step_values :: "Step \<Rightarrow> pyval list" where
  "step_values s =
     [py_str (Step.name s), py_str (Step.description s), py_str (image s), py_strs (command s),
      py_volumes (volumes s), py_str (working_dir s), py_strs (match_done s), py_strs (match_in s),
      py_strs (match_out s), py_strs (match_summary s), py_dict (environment s), py_bool (gpus s),
      py_user (user s), py_str (network_mode s), py_str (mac_address s)]"

definition escape_free :: "Step \<Rightarrow> bool" where
  "escape_free s = list_all (strings_all (\<lambda>t. \<not> has_escape t)) (step_values s)"

definition step_dicts_distinct :: "Step \<Rightarrow> bool" where
  "step_dicts_distinct s = list_all dicts_distinct (step_values s)"

text \<open>
  The lines of a text, each with its line end, and those that are retry lines of
  the run loop.
\<close>

fun split_lines :: "string \<Rightarrow> string \<Rightarrow> string list" where
  "split_lines cur [] = (if cur = [] then [] else [cur])"
| "split_lines cur (c # cs) =
     (if c = CHR 0x0A then (cur @ [c]) # split_lines [] cs else split_lines (cur @ [c]) cs)"

definition retry_marker_lines :: "string \<Rightarrow> string list" where
  "retry_marker_lines content =
     filter (\<lambda>l. take 30 l = ''Container attempts/retries at '') (split_lines [] content)"

text \<open>A store keeps another when it holds every object of it, at the same place and unchanged.\<close>

definition kept :: "heap \<Rightarrow> heap \<Rightarrow> bool" where
  "kept h h' \<longleftrightarrow> length h \<le> length h' \<and> take (length h) h' = h"

section \<open>Example inputs\<close>

text \<open>Concrete steps, pipelines, environments and values, for the instances below.\<close>

definition named_step :: "string \<Rightarrow> Step" where
  "named_step n =
     \<lparr> Step.name = Some n, Step.description = None, image = Some ''ubuntu'', command = [], volumes = [],
       working_dir = None, match_done = [], match_in = [], match_out = [], match_summary = [],
       environment = [], gpus = None, user = None, network_mode = None, mac_address = None \<rparr>"

definition new_world :: world where
  "new_world = \<lparr> containers_run = [], queries_made = 0, clock_reads = 0, log_files = Map.empty \<rparr>"

definition three_steps :: Pipeline where
  "three_steps = \<lparr> version = ''0.0.1'', description = None, args = [], prototype = None,
      steps = [named_step ''a'', named_step ''b'', named_step ''c''] \<rparr>"

definition second_fails :: env where
  "second_fails = \<lparr> engine = (\<lambda>n step. if n = 0 then Completed [] 0 ''sha256:0'' else Completed [] 1 ''sha256:0''),
     match_patterns_in_dirs = (\<lambda>n dirs patterns. []),
     now = (\<lambda>n. int n) \<rparr>"

definition no_steps :: Pipeline where
  "no_steps = \<lparr> version = ''0.0.1'', description = None, args = [], prototype = None, steps = [] \<rparr>"

definition done_step :: Step where
  "done_step = (named_step ''fit'')
     \<lparr> volumes := [(''/data'', VolumePath ''/data'')], match_done := [''done.txt''] \<rparr>"

definition done_found :: env where
  "done_found = \<lparr> engine = (\<lambda>n step. Completed [] 0 ''sha256:0''),
     match_patterns_in_dirs = (\<lambda>n dirs patterns.
        if patterns = [''done.txt''] then [(''/data'', [(''done.txt'', ''sha256:1'')])] else []),
     now = (\<lambda>n. int n) \<rparr>"

definition client_error :: env where
  "client_error = \<lparr> engine = (\<lambda>n step. RaisedBeforeLog (APIError True ''invalid reference format'')),
     match_patterns_in_dirs = (\<lambda>n dirs patterns. []),
     now = (\<lambda>n. int n) \<rparr>"

definition frozen_clock :: env where
  "frozen_clock = \<lparr> engine = (\<lambda>n step. Completed [] 0 ''sha256:0''),
     match_patterns_in_dirs = (\<lambda>n dirs patterns. []),
     now = (\<lambda>n. 0) \<rparr>"



definition escaped_command :: Pipeline where
  "escaped_command = \<lparr> version = ''0.0.1'', description = None, args = [], prototype = None,
      steps = [(named_step ''a'') \<lparr> command := [''echo'', ''$$HOME''] \<rparr>] \<rparr>"

definition gpu_prototype :: Step where
  "gpu_prototype =
     \<lparr> Step.name = None, Step.description = None, image = Some ''ubuntu'', command = [''run''],
       volumes = [(''/data'', VolumePath ''/data''), (''/ref'', VolumePath ''/ref'')],
       working_dir = None, match_done = [], match_in = [], match_out = [], match_summary = [],
       environment = [(''MODE'', ''fast'')], gpus = Some True, user = Some (UserId 1000),
       network_mode = None, mac_address = None \<rparr>"

definition cpu_step :: Step where
  "cpu_step =
     \<lparr> Step.name = Some ''fit'', Step.description = Some [], image = None, command = [],
       volumes = [(''/data'', VolumeDetail [(''bind'', ''/d''), (''mode'', ''ro'')])],
       working_dir = Some ''/work'', match_done = [], match_in = [], match_out = [], match_summary = [],
       environment = [], gpus = Some False, user = Some (UserId 0),
       network_mode = None, mac_address = None \<rparr>"

definition recovers_on_third :: env where
  "recovers_on_third = \<lparr> engine = (\<lambda>n step.
        if n < 2 then RaisedBeforeLog (APIError False ''500 Server Error'')
        else Completed [''hello'' @ [CHR 0x0A]] 0 ''sha256:0''),
     match_patterns_in_dirs = (\<lambda>n dirs patterns. []),
     now = (\<lambda>n. int n) \<rparr>"

definition always_unavailable :: env where
  "always_unavailable = \<lparr> engine = (\<lambda>n step. RaisedBeforeLog (APIError False ''500 Server Error'')),
     match_patterns_in_dirs = (\<lambda>n dirs patterns. []),
     now = (\<lambda>n. int n) \<rparr>"

definition input_step :: Step where
  "input_step = (named_step ''fit'')
     \<lparr> volumes := [(''/data'', VolumePath ''/data'')], match_in := [''in.txt''] \<rparr>"

definition inputs_then_client_error :: env where
  "inputs_then_client_error = \<lparr> engine = (\<lambda>n step. RaisedBeforeLog (APIError True ''invalid reference format'')),
     match_patterns_in_dirs = (\<lambda>n dirs patterns.
        if patterns = [''in.txt''] then [(''/data'', [(''in.txt'', ''sha256:2'')])] else []),
     now = (\<lambda>n. int n) \<rparr>"

text \<open>
  A store holding a pipeline (at 9) with two declared arguments (0), a prototype
  (6) and one step (7), and the arguments given at run time (10).
\<close>

definition ex_heap :: heap where
  "ex_heap =
     [ HDict [(''data_dir'', HStr ''/default''), (''n'', HStr ''1'')],
       HList [],
       HDict [],
       HList [HStr ''echo'', HStr ''${n} in $data_dir''],
       HDict [(''$data_dir'', HRef 5)],
       HDict [(''bind'', HStr ''/d''), (''mode'', HStr ''ro'')],
       HObject ''Step'' [(''name'', HNone), (''description'', HNone), (''image'', HStr ''ubuntu''),
          (''command'', HRef 1), (''volumes'', HRef 4), (''working_dir'', HNone),
          (''match_done'', HRef 1), (''match_in'', HRef 1), (''match_out'', HRef 1),
          (''match_summary'', HRef 1), (''environment'', HRef 2), (''gpus'', HBool True),
          (''user'', HNone), (''network_mode'', HNone), (''mac_address'', HNone)],
       HObject ''Step'' [(''name'', HStr ''fit''), (''description'', HNone), (''image'', HNone),
          (''command'', HRef 3), (''volumes'', HRef 2), (''working_dir'', HNone),
          (''match_done'', HRef 1), (''match_in'', HRef 1), (''match_out'', HRef 1),
          (''match_summary'', HRef 1), (''environment'', HRef 2), (''gpus'', HBool False),
          (''user'', HInt 0), (''network_mode'', HNone), (''mac_address'', HNone)],
       HList [HRef 7],
       HObject ''Pipeline'' [(''version'', HStr ''0.0.1''), (''description'', HNone),
          (''args'', HRef 0), (''prototype'', HRef 6), (''steps'', HRef 8)],
       HDict [(''data_dir'', HStr ''/custom''), (''other'', HStr ''5'')] ]"

section \<open>The scan\<close>

lemma find_matches_literal:
  "c \<noteq> CHR ''$'' \<Longrightarrow> find_matches (c # cs) = Literal c # find_matches cs"
  by (subst find_matches.simps(2)) simp

lemma find_matches_end: "find_matches [CHR ''$''] = [Invalid]"
  by (subst find_matches.simps(2)) simp

lemma find_matches_escaped:
  "find_matches (CHR ''$'' # CHR ''$'' # ds) = Escaped # find_matches ds"
  by (subst find_matches.simps(2)) simp

lemma find_matches_named:
  "is_id_start d \<Longrightarrow> find_matches (CHR ''$'' # d # ds) =
     Named (takeWhile is_id_char (d # ds)) # find_matches (dropWhile is_id_char (d # ds))"
  by (subst find_matches.simps(2)) (auto simp: is_id_start_def)

lemma find_matches_braced:
  "closes_brace ds \<Longrightarrow> find_matches (CHR ''$'' # CHR ''{'' # ds) =
     Braced (takeWhile is_id_char ds) # find_matches (tl (dropWhile is_id_char ds))"
  by (subst find_matches.simps(2)) (auto simp: is_id_start_def)

lemma find_matches_invalid:
  "d \<noteq> CHR ''$'' \<Longrightarrow> \<not> is_id_start d \<Longrightarrow> \<not> (d = CHR ''{'' \<and> closes_brace ds) \<Longrightarrow>
     find_matches (CHR ''$'' # d # ds) = Invalid # find_matches (d # ds)"
  by (subst find_matches.simps(2)) auto

lemma find_matches_cases [case_names nil literal last escaped named braced invalid]:
  assumes "s = [] \<Longrightarrow> R"
    and "\<And>c cs. s = c # cs \<Longrightarrow> c \<noteq> CHR ''$'' \<Longrightarrow> R"
    and "s = [CHR ''$''] \<Longrightarrow> R"
    and "\<And>ds. s = CHR ''$'' # CHR ''$'' # ds \<Longrightarrow> R"
    and "\<And>d ds. s = CHR ''$'' # d # ds \<Longrightarrow> is_id_start d \<Longrightarrow> R"
    and "\<And>ds. s = CHR ''$'' # CHR ''{'' # ds \<Longrightarrow> closes_brace ds \<Longrightarrow> R"
    and "\<And>d ds. s = CHR ''$'' # d # ds \<Longrightarrow> d \<noteq> CHR ''$'' \<Longrightarrow> \<not> is_id_start d
           \<Longrightarrow> \<not> (d = CHR ''{'' \<and> closes_brace ds) \<Longrightarrow> R"
  shows R
proof (cases s)
  case Nil
  then show ?thesis using assms(1) by simp
next
  case (Cons c cs)
  show ?thesis
  proof (cases "c = CHR ''$''")
    case False
    then show ?thesis using assms(2) Cons by simp
  next
    case True
    show ?thesis
    proof (cases cs)
      case Nil
      then show ?thesis using assms(3) Cons True by simp
    next
      case (Cons d ds)
      then have s: "s = CHR ''$'' # d # ds" using \<open>s = c # cs\<close> True by simp
      show ?thesis
        using assms(4)[of ds] assms(5)[of d ds] assms(6)[of ds] assms(7)[of d ds] s
        by (cases "d = CHR ''$''"; cases "is_id_start d"; cases "d = CHR ''{'' \<and> closes_brace ds") auto
    qed
  qed
qed

lemma length_tl_dropWhile: "length (tl (dropWhile P xs)) \<le> length xs"
  using length_dropWhile_le [of P xs] by simp

text \<open>Induction over the scan: a property of strings holds when it is kept by every way to read a piece.\<close>

lemma scan_induct [case_names nil literal last escaped named braced invalid]:
  assumes "P []"
    and "\<And>c cs. c \<noteq> CHR ''$'' \<Longrightarrow> P cs \<Longrightarrow> P (c # cs)"
    and "P [CHR ''$'']"
    and "\<And>ds. P ds \<Longrightarrow> P (CHR ''$'' # CHR ''$'' # ds)"
    and "\<And>d ds. is_id_start d \<Longrightarrow> P (dropWhile is_id_char (d # ds)) \<Longrightarrow> P (CHR ''$'' # d # ds)"
    and "\<And>ds. closes_brace ds \<Longrightarrow> P (tl (dropWhile is_id_char ds)) \<Longrightarrow> P (CHR ''$'' # CHR ''{'' # ds)"
    and "\<And>d ds. d \<noteq> CHR ''$'' \<Longrightarrow> \<not> is_id_start d \<Longrightarrow> \<not> (d = CHR ''{'' \<and> closes_brace ds)
           \<Longrightarrow> P (d # ds) \<Longrightarrow> P (CHR ''$'' # d # ds)"
  shows "P s"
proof (induction s rule: length_induct)
  case (1 s)
  show ?case
  proof (cases s rule: find_matches_cases)
    case nil
    then show ?thesis using assms(1) by simp
  next
    case (literal c cs)
    then show ?thesis using assms(2) 1 by simp
  next
    case last
    then show ?thesis using assms(3) by simp
  next
    case (escaped ds)
    then show ?thesis using assms(4) 1 by simp
  next
    case (named d ds)
    have "length (dropWhile is_id_char (d # ds)) < length s"
      using length_dropWhile_le [of is_id_char "d # ds"] named(1) by simp
    then show ?thesis using assms(5) 1 named by blast
  next
    case (braced ds)
    have "length (tl (dropWhile is_id_char ds)) < length s"
      using length_tl_dropWhile [of is_id_char ds] braced(1) by simp
    then show ?thesis using assms(6) 1 braced by blast
  next
    case (invalid d ds)
    then show ?thesis using assms(7) 1 by simp
  qed
qed

lemma matched_text_find_matches: "concat (map matched_text (find_matches s)) = s"
proof (induction s rule: scan_induct)
  case (named d ds)
  have "takeWhile is_id_char (d # ds) @ dropWhile is_id_char (d # ds) = d # ds"
    by (rule takeWhile_dropWhile_id)
  then show ?case using named by (simp add: find_matches_named del: takeWhile.simps dropWhile.simps)
next
  case (braced ds)
  then have "dropWhile is_id_char ds = CHR ''}'' # tl (dropWhile is_id_char ds)"
    by (cases "dropWhile is_id_char ds") (auto simp: closes_brace_def)
  then have "takeWhile is_id_char ds @ CHR ''}'' # tl (dropWhile is_id_char ds) = ds"
    by (metis takeWhile_dropWhile_id)
  then show ?case using braced by (simp add: find_matches_braced)
qed (simp_all add: find_matches_literal find_matches_end find_matches_escaped find_matches_invalid)




section \<open>Substitution\<close>

lemma has_escape_suffix: "has_escape ys \<Longrightarrow> has_escape (xs @ ys)"
proof (induction xs)
  case Nil
  then show ?case by simp
next
  case (Cons x xs)
  then have "has_escape (xs @ ys)" by simp
  then show ?case by (cases "xs @ ys") auto
qed

lemma has_escape_dropWhile: "has_escape (dropWhile P xs) \<Longrightarrow> has_escape xs"
  using has_escape_suffix [of "dropWhile P xs" "takeWhile P xs"] by simp

lemma has_escape_tl: "has_escape (tl xs) \<Longrightarrow> has_escape xs"
  using has_escape_suffix [of "tl xs" "[hd xs]"] by (cases xs) auto

lemma no_escape_no_Escaped: "\<not> has_escape s \<Longrightarrow> Escaped \<notin> set (find_matches s)"
proof (induction s rule: scan_induct)
  case (named d ds)
  have "\<not> has_escape (d # ds)" using named.prems by auto
  then have "\<not> has_escape (dropWhile is_id_char (d # ds))" using has_escape_dropWhile by blast
  then show ?case using named by (simp add: find_matches_named del: dropWhile.simps takeWhile.simps)
next
  case (braced ds)
  have "\<not> has_escape ds" using braced.prems has_escape_suffix [of ds "''${''"] by auto
  then have "\<not> has_escape (tl (dropWhile is_id_char ds))"
    using has_escape_dropWhile has_escape_tl by blast
  then show ?case using braced by (simp add: find_matches_braced)
next
  case (invalid d ds)
  then show ?case by (auto simp: find_matches_invalid)
next
  case (literal c cs)
  then show ?case by (cases cs) (auto simp: find_matches_literal)
qed (simp_all add: find_matches_end)

lemma convert_empty: "m \<noteq> Escaped \<Longrightarrow> convert [] m = matched_text m"
  by (cases m) simp_all

lemma safe_substitute_no_args:
  assumes "\<not> has_escape s"
  shows "safe_substitute [] s = s"
proof -
  have "Escaped \<notin> set (find_matches s)" using assms by (rule no_escape_no_Escaped)
  then have "convert [] m = matched_text m" if "m \<in> set (find_matches s)" for m
    using that by (intro convert_empty) auto
  then have eq: "map (convert []) (find_matches s) = map matched_text (find_matches s)"
    by simp
  show ?thesis unfolding safe_substitute_def eq by (rule matched_text_find_matches)
qed




section \<open>Mappings\<close>

lemma dict_set_fresh: "k \<notin> fst ` set d \<Longrightarrow> dict_set d k v = d @ [(k, v)]"
  by (induction d) auto

lemma foldl_dict_set_distinct:
  "distinct (map fst (acc @ xs)) \<Longrightarrow> foldl (\<lambda>d (k, v). dict_set d k v) acc xs = acc @ xs"
proof (induction xs arbitrary: acc)
  case Nil
  then show ?case by simp
next
  case (Cons x xs)
  obtain k v where x: "x = (k, v)" by (cases x)
  have "k \<notin> fst ` set acc" using Cons.prems x by auto
  then have "dict_set acc k v = acc @ [(k, v)]" by (rule dict_set_fresh)
  moreover have "distinct (map fst ((acc @ [(k, v)]) @ xs))" using Cons.prems x by simp
  ultimately show ?case using Cons.IH [of "acc @ [(k, v)]"] x by simp
qed

lemma dict_of_items_distinct: "distinct (map fst xs) \<Longrightarrow> dict_of_items xs = xs"
  using foldl_dict_set_distinct [of "[]" xs] by (simp add: dict_of_items_def)


lemma in_keys: "(k, v) \<in> set d \<Longrightarrow> k \<in> fst ` set d"
  by (rule image_eqI [of _ _ "(k, v)"]) simp_all

lemma map_fst_dict_set:
  "map fst (dict_set d k v) = (if k \<in> fst ` set d then map fst d else map fst d @ [k])"
  by (induction d) (auto dest: in_keys)

lemma keys_dict_set: "fst ` set (dict_set d k v) = insert k (fst ` set d)"
proof -
  have "set (map fst (dict_set d k v)) = insert k (fst ` set d)"
    by (simp only: map_fst_dict_set) auto
  then show ?thesis by simp
qed





lemma map_of_dict_set: "map_of (dict_set d k v) = (map_of d)(k \<mapsto> v)"
  by (induction d) auto

lemma map_of_foldl_dict_set:
  "map_of (foldl (\<lambda>d (k, v). dict_set d k v) acc xs) = map_of acc ++ map_of (rev xs)"
proof (induction xs arbitrary: acc)
  case Nil
  then show ?case by simp
next
  case (Cons x xs)
  obtain k v where x: "x = (k, v)" by (cases x)
  have "foldl (\<lambda>d (k, v). dict_set d k v) acc (x # xs)
        = foldl (\<lambda>d (k, v). dict_set d k v) (dict_set acc k v) xs"
    using x by simp
  then have "map_of (foldl (\<lambda>d (k, v). dict_set d k v) acc (x # xs))
        = (map_of acc)(k \<mapsto> v) ++ map_of (rev xs)"
    using Cons.IH [of "dict_set acc k v"] by (simp only: map_of_dict_set)
  also have "\<dots> = map_of acc ++ map_of (rev (x # xs))"
    using x by (auto simp: map_add_def fun_eq_iff split: option.splits)
  finally show ?case .
qed

lemma map_of_dict_of_items: "map_of (dict_of_items xs) = map_of (rev xs)"
  using map_of_foldl_dict_set [of "[]" xs] by (simp add: dict_of_items_def)

lemma map_of_rev_distinct: "distinct (map fst xs) \<Longrightarrow> map_of (rev xs) = map_of xs"
  by (induction xs) (auto simp: map_add_def fun_eq_iff image_iff split: option.splits dest: map_of_SomeD)

lemma merged_lookup:
  assumes "distinct (map fst s)" and "map_of s k = Some v"
  shows "map_of (dict_of_items (p @ s)) k = Some v"
  using assms by (simp add: map_of_dict_of_items map_of_rev_distinct)

lemma merged_lookup_other:
  assumes "distinct (map fst p)" and "map_of s k = None"
  shows "map_of (dict_of_items (p @ s)) k = map_of p k"
proof -
  have "map_of (rev s) k = None" using assms(2) by (simp add: map_of_eq_None_iff)
  then show ?thesis using assms(1) by (simp add: map_of_dict_of_items map_of_rev_distinct map_add_def)
qed

section \<open>\<open>apply_args\<close> at the type of a field\<close>

lemma dict_set_map_values:
  "dict_set (map (\<lambda>(k, v). (k, h v)) d) k (h v) = map (\<lambda>(k, v). (k, h v)) (dict_set d k v)"
  by (induction d) auto

lemma foldl_dict_set_map_values:
  "foldl (\<lambda>d (k, v). dict_set d k v) (map (\<lambda>(k, v). (k, h v)) acc) (map (\<lambda>(k, v). (k, h v)) xs)
     = map (\<lambda>(k, v). (k, h v)) (foldl (\<lambda>d (k, v). dict_set d k v) acc xs)"
proof (induction xs arbitrary: acc)
  case Nil
  then show ?case by simp
next
  case (Cons x xs)
  obtain k v where x: "x = (k, v)" by (cases x)
  show ?case using Cons.IH [of "dict_set acc k v"] x by (simp add: dict_set_map_values)
qed

lemma dict_of_items_map_values:
  "dict_of_items (map (\<lambda>(k, v). (k, h v)) xs) = map (\<lambda>(k, v). (k, h v)) (dict_of_items xs)"
  using foldl_dict_set_map_values [of h "[]" xs] by (simp add: dict_of_items_def)

lemma apply_args_py_str: "apply_args (py_str x) a = py_str (apply_args_str x a)"
  by (cases x) (simp_all add: py_str_def apply_args_str_def)

lemma apply_args_py_strs: "apply_args (py_strs x) a = py_strs (apply_args_strs x a)"
  by (simp add: py_strs_def apply_args_strs_def comp_def)

lemma apply_args_py_dict: "apply_args (py_dict x) a = py_dict (apply_args_dict x a)"
proof -
  have "map (\<lambda>(k, v). (safe_substitute a k, apply_args v a)) (map (\<lambda>(k, v). (k, PStr v)) x)
      = map (\<lambda>(k, v). (k, PStr v)) (map (\<lambda>(k, v). (safe_substitute a k, safe_substitute a v)) x)"
    by (simp add: comp_def split_def)
  then show ?thesis
    by (simp only: py_dict_def apply_args_dict_def apply_args.simps dict_of_items_map_values)
qed

lemma apply_args_py_volume: "apply_args (py_volume v) a = py_volume (apply_args_volume v a)"
  by (cases v) (simp_all add: apply_args_py_dict)

lemma apply_args_py_volumes: "apply_args (py_volumes x) a = py_volumes (apply_args_volumes x a)"
proof -
  have "map (\<lambda>(k, v). (safe_substitute a k, apply_args v a)) (map (\<lambda>(k, v). (k, py_volume v)) x)
      = map (\<lambda>(k, v). (k, py_volume v)) (map (\<lambda>(k, v). (safe_substitute a k, apply_args_volume v a)) x)"
    by (simp add: comp_def split_def apply_args_py_volume)
  then show ?thesis
    by (simp only: py_volumes_def apply_args_volumes_def apply_args.simps dict_of_items_map_values)
qed

lemma apply_args_py_bool: "apply_args (py_bool x) a = py_bool x"
  by (cases x) (simp_all add: py_bool_def)

lemma apply_args_py_user: "apply_args (py_user x) a = py_user (apply_args_user x a)"
  by (cases x rule: py_user.cases) simp_all

lemma py_str_inject: "py_str x = py_str y \<Longrightarrow> x = y"
  by (cases x; cases y) (simp_all add: py_str_def)

lemma py_strs_inject: "py_strs x = py_strs y \<Longrightarrow> x = y"
proof -
  have "inj PStr" by (rule injI) simp
  then show "py_strs x = py_strs y \<Longrightarrow> x = y" by (simp add: py_strs_def inj_map_eq_map)
qed

lemma map_values_inject:
  assumes "\<And>u v. h u = h v \<Longrightarrow> u = v"
    and "map (\<lambda>(k, v). (k, h v)) x = map (\<lambda>(k, v). (k, h v)) y"
  shows "x = y"
proof -
  have "inj (\<lambda>(k :: 'k, v). (k, h v))" using assms(1) by (auto intro!: injI)
  from inj_map_eq_map [OF this] show ?thesis using assms(2) by (rule iffD1)
qed

lemma py_dict_inject: "py_dict x = py_dict y \<Longrightarrow> x = y"
  using map_values_inject [of PStr x y] by (simp add: py_dict_def)

lemma py_volume_inject: "py_volume u = py_volume v \<Longrightarrow> u = v"
proof (cases u; cases v)
  fix x y assume "py_volume u = py_volume v" "u = VolumeDetail x" "v = VolumeDetail y"
  then show "u = v" using py_dict_inject [of x y] by simp
qed (simp_all add: py_dict_def)

lemma py_volumes_inject: "py_volumes x = py_volumes y \<Longrightarrow> x = y"
  using map_values_inject [of py_volume x y] py_volume_inject by (auto simp: py_volumes_def)

lemma py_user_inject: "py_user x = py_user y \<Longrightarrow> x = y"
  by (cases x rule: py_user.cases; cases y rule: py_user.cases) simp_all

section \<open>Resolved values are fixed\<close>





lemma apply_args_fixed_if:
  "(\<And>s. Q s \<Longrightarrow> safe_substitute a s = s) \<Longrightarrow> strings_all Q x \<Longrightarrow> dicts_distinct x
     \<Longrightarrow> apply_args x a = x"
proof (induction x a rule: apply_args.induct)
  case (1 x a)
  then show ?case by simp
next
  case (2 x a)
  then show ?case by (simp add: list_all_iff map_idI)
next
  case (3 x a)
  have "map (\<lambda>(k, v). (safe_substitute a k, apply_args v a)) x = x"
  proof (rule map_idI)
    fix p assume p: "p \<in> set x"
    obtain k v where kv: "p = (k, v)" by (cases p)
    have "Q k" "strings_all Q v" "dicts_distinct v"
      using 3(3,4) p kv by (auto simp: list_all_iff)
    then show "(case p of (k, v) \<Rightarrow> (safe_substitute a k, apply_args v a)) = p"
      using kv 3(1) [OF p kv [symmetric] 3(2)] 3(2) by simp
  qed
  then show ?case using 3(4) by (simp add: dict_of_items_distinct)
qed simp_all

lemma apply_args_no_args:
  "strings_all (\<lambda>t. \<not> has_escape t) x \<Longrightarrow> dicts_distinct x \<Longrightarrow> apply_args x [] = x"
  by (rule apply_args_fixed_if [where Q = "\<lambda>t. \<not> has_escape t"]) (simp_all add: safe_substitute_no_args)

lemma Step_with_args_applied_no_args:
  assumes "escape_free s" and "step_dicts_distinct s"
  shows "Step_with_args_applied s [] = s"
proof -
  have fixed: "apply_args v [] = v" if "v \<in> set (step_values s)" for v
    using that assms apply_args_no_args [of v]
    by (simp add: escape_free_def step_dicts_distinct_def list_all_iff)
  have str: "apply_args_str x [] = x" if "py_str x \<in> set (step_values s)" for x
    using fixed [OF that] by (simp add: apply_args_py_str py_str_inject)
  have strs: "apply_args_strs x [] = x" if "py_strs x \<in> set (step_values s)" for x
    using fixed [OF that] by (simp add: apply_args_py_strs py_strs_inject)
  have "apply_args_volumes (volumes s) [] = volumes s"
    using fixed [of "py_volumes (volumes s)"]
    by (simp add: step_values_def apply_args_py_volumes py_volumes_inject)
  moreover have "apply_args_dict (environment s) [] = environment s"
    using fixed [of "py_dict (environment s)"]
    by (simp add: step_values_def apply_args_py_dict py_dict_inject)
  moreover have "apply_args_user (user s) [] = user s"
    using fixed [of "py_user (user s)"]
    by (simp add: step_values_def apply_args_py_user py_user_inject)
  ultimately show ?thesis
    using str strs by (simp add: Step_with_args_applied_def step_values_def)
qed


section \<open>The loop over the steps\<close>

lemma run_steps_stop:
  assumes "run_steps e p f names pre w = Inr (rs, w1)"
      and "list_all (\<lambda>r. \<not> truthy_int (exit_code r)) rs"
      and "\<not> ignored names s" and "Step.name s = Some n"
      and "run_step e s (Path p (log_stem n @ ''.log'')) f w1 = (r, w2)"
      and "truthy_int (exit_code r)"
  shows "run_steps e p f names (pre @ s # post) w = Inr (rs @ [r], w2)"
  using assms(1,2)
proof (induction pre arbitrary: w rs)
  case Nil
  then show ?case using assms(3-6) by simp
next
  case (Cons a pre)
  show ?case
  proof (cases "ignored names a")
    case True
    then show ?thesis using Cons by simp
  next
    case False
    then obtain m where m: "Step.name a = Some m"
      using Cons.prems(1) by (cases "Step.name a") auto
    obtain ra wa where ra: "run_step e a (Path p (log_stem m @ ''.log'')) f w = (ra, wa)"
      by (cases "run_step e a (Path p (log_stem m @ ''.log'')) f w") auto
    show ?thesis
    proof (cases "truthy_int (exit_code ra)")
      case True
      then have "rs = [ra]" using Cons.prems(1) False m ra by simp
      then show ?thesis using Cons.prems(2) True by simp
    next
      case nt: False
      then obtain later where l: "run_steps e p f names pre wa = Inr (later, w1)" and rs: "rs = ra # later"
        using Cons.prems(1) False m ra by (auto split: sum.splits)
      have "list_all (\<lambda>r. \<not> truthy_int (exit_code r)) later" using Cons.prems(2) rs by simp
      from Cons.IH[OF l this] show ?thesis using False m ra nt rs by simp
    qed
  qed
qed

lemma run_steps_error:
  "run_steps e p f names ss w = Inl err \<Longrightarrow>
     err = AttributeError \<and> list_ex (\<lambda>s. Step.name s = None) ss"
proof (induction ss arbitrary: w)
  case Nil
  then show ?case by simp
next
  case (Cons s ss)
  show ?case
  proof (cases "ignored names s")
    case True
    then show ?thesis using Cons by simp
  next
    case False
    show ?thesis
    proof (cases "Step.name s")
      case None
      then show ?thesis using Cons.prems False by simp
    next
      case (Some n)
      obtain r w1 where r: "run_step e s (Path p (log_stem n @ ''.log'')) f w = (r, w1)"
        by (cases "run_step e s (Path p (log_stem n @ ''.log'')) f w") auto
      have "run_steps e p f names ss w1 = Inl err"
        using Cons.prems False Some r by (auto split: if_splits sum.splits)
      then show ?thesis using Cons.IH by simp
    qed
  qed
qed

lemma amend3: "steps (amend three_steps []) = [named_step ''a'', named_step ''b'', named_step ''c'']"
  by (simp add: amend_def three_steps_def Pipeline_with_prototype_applied_def Pipeline_with_args_applied_def
      combine_args_def dict_of_items_def named_step_def Step_with_args_applied_def apply_args_str_def
      apply_args_strs_def apply_args_dict_def apply_args_volumes_def safe_substitute_def find_matches.simps(2))

section \<open>The amendment keeps the store\<close>

lemma kept_refl: "kept h h"
  by (simp add: kept_def)

lemma kept_trans: "kept h1 h2 \<Longrightarrow> kept h2 h3 \<Longrightarrow> kept h1 h3"
proof -
  assume a: "kept h1 h2" and b: "kept h2 h3"
  have le: "length h1 \<le> length h2" and t2: "take (length h2) h3 = h2"
    using a b by (simp_all add: kept_def)
  have "take (length h1) (take (length h2) h3) = take (length h1) h3"
    using le by (simp add: min_def)
  then have "take (length h1) h3 = take (length h1) h2" using t2 by simp
  then show ?thesis using a b by (simp add: kept_def)
qed

lemma kept_alloc: "alloc obj h = (v, h') \<Longrightarrow> kept h h' \<and> v = HRef (length h) \<and> length h' = Suc (length h)"
  by (auto simp: alloc_def kept_def)

lemma kept_setitem:
  "kept h0 h \<Longrightarrow> length h0 \<le> r \<Longrightarrow> setitem h (HRef r) k v = Some h' \<Longrightarrow> kept h0 h'"
  by (auto simp: kept_def split: if_splits hobj.splits)

lemma kept_accept_args:
  "kept h0 h \<Longrightarrow> length h0 \<le> r \<Longrightarrow> accept_args self given (HRef r) ks h = Some h' \<Longrightarrow> kept h0 h'"
proof (induction ks arbitrary: h)
  case Nil
  then show ?case by simp
next
  case (Cons k ks)
  from Cons.prems(3) obtain v h1 where "setitem h (HRef r) k v = Some h1"
    and "accept_args self given (HRef r) ks h1 = Some h'"
    by (auto simp del: setitem.simps split: Option.bind_splits)
  then show ?case using Cons.IH Cons.prems(1,2) kept_setitem by blast
qed

lemma kept_combine_args:
  assumes "Pipeline_combine_args_h self given h = Some (v, h')"
  shows "kept h h' \<and> v = HRef (length h)"
proof -
  have "Pipeline_combine_args_h self given h =
      do { declared \<leftarrow> getattr (h @ [HDict []]) self ''args'';
           d \<leftarrow> dict_items (h @ [HDict []]) declared;
           h2 \<leftarrow> accept_args self given (HRef (length h)) (map fst d) (h @ [HDict []]);
           Some (HRef (length h), h2) }"
    by (simp add: Pipeline_combine_args_h_def alloc_def)
  with assms obtain ks where "accept_args self given (HRef (length h)) ks (h @ [HDict []]) = Some h'"
    and v: "v = HRef (length h)"
    by (auto simp only: bind_eq_Some_conv option.inject prod.inject)
  moreover have "kept h (h @ [HDict []])" by (simp add: kept_def)
  ultimately show ?thesis using kept_accept_args [of h "h @ [HDict []]" "length h"] by simp
qed

lemma kept_map_heap:
  assumes "\<And>x h v h'. f x h = Some (v, h') \<Longrightarrow> kept h h'"
  shows "map_heap f xs h = Some (ys, h') \<Longrightarrow> kept h h'"
proof (induction xs arbitrary: h ys)
  case Nil
  then show ?case by (simp add: kept_refl)
next
  case (Cons x xs)
  from Cons.prems obtain y h1 zs where "f x h = Some (y, h1)" and "map_heap f xs h1 = Some (zs, h')"
    by (auto split: Option.bind_splits)
  then show ?case using assms Cons.IH kept_trans by blast
qed

lemma kept_map_heap_items:
  assumes "\<And>x h v h'. fv x h = Some (v, h') \<Longrightarrow> kept h h'"
  shows "map_heap_items fk fv d h = Some (kvs, h') \<Longrightarrow> kept h h'"
proof (induction d arbitrary: h kvs)
  case Nil
  then show ?case by (simp add: kept_refl)
next
  case (Cons kv d)
  from Cons.prems obtain y h1 zs where "fv (snd kv) h = Some (y, h1)"
    and "map_heap_items fk fv d h1 = Some (zs, h')"
    by (auto split: Option.bind_splits)
  then show ?case using assms Cons.IH kept_trans by blast
qed

lemma kept_apply_args_h: "apply_args_h n x a h = Some (v, h') \<Longrightarrow> kept h h'"
proof (induction n arbitrary: x h v h')
  case 0
  then show ?case by simp
next
  case (Suc n)
  have step: "\<And>x h v h'. apply_args_h n x a h = Some (v, h') \<Longrightarrow> kept h h'"
    using Suc.IH by blast
  show ?case
  proof (cases x)
    case (HRef r)
    show ?thesis
    proof (cases "deref h (HRef r)")
      case None
      then show ?thesis using Suc.prems HRef by simp
    next
      case (Some obj)
      show ?thesis
      proof (cases obj)
        case (HList xs)
        then obtain ys h1 where m: "map_heap (\<lambda>e. apply_args_h n e a) xs h = Some (ys, h1)"
          and al: "alloc (HList ys) h1 = (v, h')"
          using Suc.prems HRef Some by (auto simp del: deref.simps split: Option.bind_splits)
        have "kept h h1" using kept_map_heap [OF step m] .
        then show ?thesis using kept_alloc [OF al] kept_trans by blast
      next
        case (HDict d)
        then obtain kvs h1 where m: "map_heap_items (\<lambda>k h'. substitute_h h' a k) (\<lambda>e. apply_args_h n e a) d h = Some (kvs, h1)"
          and al: "alloc (HDict (dict_of_items kvs)) h1 = (v, h')"
          using Suc.prems HRef Some by (auto simp del: deref.simps split: Option.bind_splits)
        have "kept h h1" using kept_map_heap_items [OF step m] .
        then show ?thesis using kept_alloc [OF al] kept_trans by blast
      next
        case (HObject cls attrs)
        then show ?thesis using Suc.prems HRef Some by (simp del: deref.simps add: kept_refl)
      qed
    qed
  qed (use Suc.prems in \<open>auto simp: kept_refl split: Option.bind_splits\<close>)
qed

lemma kept_apply_fields: "apply_fields n self a fs h = Some (attrs, h') \<Longrightarrow> kept h h'"
proof (induction fs arbitrary: h attrs)
  case Nil
  then show ?case by (simp add: kept_refl)
next
  case (Cons f fs)
  from Cons.prems obtain v v' h1 rest where "apply_args_h n v a h = Some (v', h1)"
    and "apply_fields n self a fs h1 = Some (rest, h')"
    by (auto split: Option.bind_splits)
  then show ?case using kept_apply_args_h Cons.IH kept_trans by blast
qed

lemma kept_Step_with_args_applied_h:
  assumes "Step_with_args_applied_h n self a h = Some (v, h')"
  shows "kept h h' \<and> (\<exists>r. v = HRef r \<and> length h \<le> r \<and> r < length h')"
proof -
  from assms obtain attrs h1 where f: "apply_fields n self a step_fields h = Some (attrs, h1)"
    and al: "alloc (HObject ''Step'' attrs) h1 = (v, h')"
    by (auto simp: Step_with_args_applied_h_def split: Option.bind_splits)
  have k: "kept h h1" using kept_apply_fields [OF f] .
  then have "length h \<le> length h1" by (simp add: kept_def)
  then show ?thesis using kept_alloc [OF al] k kept_trans by auto
qed

lemma kept_merge_field: "merge_field self proto f h = Some (v, h') \<Longrightarrow> kept h h'"
  by (auto simp: merge_field_def kept_refl dest: kept_alloc split: Option.bind_splits if_splits)

lemma kept_merge_fields: "merge_fields self proto fs h = Some (attrs, h') \<Longrightarrow> kept h h'"
proof (induction fs arbitrary: h attrs)
  case Nil
  then show ?case by (simp add: kept_refl)
next
  case (Cons f fs)
  from Cons.prems obtain v h1 rest where "merge_field self proto f h = Some (v, h1)"
    and "merge_fields self proto fs h1 = Some (rest, h')"
    by (auto split: Option.bind_splits)
  then show ?case using kept_merge_field Cons.IH kept_trans by blast
qed

lemma kept_Step_with_prototype_applied_h:
  assumes "Step_with_prototype_applied_h self proto h = Some (v, h')"
  shows "kept h h'"
proof (cases "truthy_h h proto")
  case False
  then show ?thesis using assms by (simp add: Step_with_prototype_applied_h_def kept_refl)
next
  case True
  then obtain attrs h1 where f: "merge_fields self proto step_fields h = Some (attrs, h1)"
    and al: "alloc (HObject ''Step'' attrs) h1 = (v, h')"
    using assms by (auto simp: Step_with_prototype_applied_h_def split: Option.bind_splits)
  show ?thesis using kept_merge_fields [OF f] kept_alloc [OF al] kept_trans by blast
qed

lemma kept_Pipeline_with_args_applied_h:
  assumes "Pipeline_with_args_applied_h n self given h = Some (v, h')"
  shows "kept h h' \<and> (\<exists>r. v = HRef r \<and> length h \<le> r \<and> r < length h')"
proof -
  from assms obtain combined h1 proto amended_prototype h2 ver d xs ys h3 new_steps h4
    where c: "Pipeline_combine_args_h self given h = Some (combined, h1)"
      and p: "(if truthy_h h1 proto then Step_with_args_applied_h n proto combined h1
               else Some (HNone, h1)) = Some (amended_prototype, h2)"
      and m: "map_heap (\<lambda>step. Step_with_args_applied_h n step combined) xs h2 = Some (ys, h3)"
      and l: "alloc (HList ys) h3 = (new_steps, h4)"
      and r: "alloc (HObject ''Pipeline''
                [(''version'', ver), (''description'', d), (''args'', combined),
                 (''prototype'', amended_prototype), (''steps'', new_steps)]) h4 = (v, h')"
    unfolding Pipeline_with_args_applied_h_def
    by (fastforce split: Option.bind_splits prod.splits)
  have k1: "kept h h1" using kept_combine_args [OF c] by simp
  have k2: "kept h1 h2"
    using p kept_Step_with_args_applied_h [of n proto combined h1 amended_prototype h2]
    by (auto simp: kept_refl split: if_splits)
  have k3: "kept h2 h3"
    using kept_map_heap [OF _ m] kept_Step_with_args_applied_h by blast
  have k4: "kept h3 h4" using kept_alloc [OF l] by simp
  have k5: "kept h h4" using k1 k2 k3 k4 kept_trans by blast
  then have "length h \<le> length h4" by (simp add: kept_def)
  then show ?thesis using kept_alloc [OF r] k5 kept_trans by auto
qed

lemma kept_Pipeline_with_prototype_applied_h:
  assumes "Pipeline_with_prototype_applied_h self h = Some (v, h')"
  shows "kept h h' \<and> (\<exists>r. v = HRef r \<and> length h \<le> r \<and> r < length h')"
proof -
  from assms obtain ver d a p xs ys h1 new_steps h2
    where m: "map_heap (\<lambda>step h'. do { proto \<leftarrow> getattr h' self ''prototype'';
                              Step_with_prototype_applied_h step proto h' }) xs h = Some (ys, h1)"
      and l: "alloc (HList ys) h1 = (new_steps, h2)"
      and r: "alloc (HObject ''Pipeline''
                [(''version'', ver), (''description'', d), (''args'', a),
                 (''prototype'', p), (''steps'', new_steps)]) h2 = (v, h')"
    unfolding Pipeline_with_prototype_applied_h_def
    by (fastforce split: Option.bind_splits prod.splits)
  have "\<And>x h v h'. do { proto \<leftarrow> getattr h self ''prototype'';
            Step_with_prototype_applied_h x proto h } = Some (v, h') \<Longrightarrow> kept h h'"
    by (auto simp: bind_eq_Some_conv dest: kept_Step_with_prototype_applied_h)
  then have k1: "kept h h1" using kept_map_heap [OF _ m] by blast
  have k2: "kept h1 h2" using kept_alloc [OF l] by simp
  have k3: "kept h h2" using k1 k2 kept_trans by blast
  then have "length h \<le> length h2" by (simp add: kept_def)
  then show ?thesis using kept_alloc [OF r] k3 kept_trans by auto
qed

lemma ex_amend: "map_option fst (amend_h 3 (HRef 9) (HRef 10) ex_heap) = Some (HRef 35)"
  by code_simp

text \<open>
  The clock is read once when a run begins, once or twice by every step that is
  run, and once when the run ends; the run loop does not read it.
\<close>

lemma clock_reads_write_file [simp]: "clock_reads (write_file w p t) = clock_reads w"
  by (simp add: write_file_def)

lemma clock_reads_append_file [simp]: "clock_reads (append_file w p t) = clock_reads w"
  by (simp add: append_file_def)

lemma clock_reads_try_container:
  "clock_reads (snd (try_container e step log_path w)) = clock_reads w"
  by (simp add: try_container_def Let_def split: attempt.splits)

lemma clock_reads_run_container_loop:
  "clock_reads (snd (run_container_loop e step log_path max_attempts retried attempts w))
     = clock_reads w"
proof (induction e step log_path max_attempts retried attempts w rule: run_container_loop.induct)
  case (1 e step log_path max_attempts retried attempts w)
  show ?case
  proof (cases "attempts < max_attempts")
    case False
    then show ?thesis by (subst run_container_loop.simps) simp
  next
    case True
    obtain res w1 where t: "try_container e step log_path w = (res, w1)"
      by (cases "try_container e step log_path w") auto
    have w1: "clock_reads w1 = clock_reads w"
      using clock_reads_try_container [of e step log_path w] t by simp
    show ?thesis
    proof (cases res)
      case (Inr ok)
      then show ?thesis using True t w1
        by (subst run_container_loop.simps) (simp add: split_def)
    next
      case (Inl x)
      show ?thesis
      proof (cases x)
        case (APIError is_client explanation)
        show ?thesis
        proof (cases is_client)
          case True
          then show ?thesis using \<open>attempts < max_attempts\<close> t w1 Inl APIError
            by (subst run_container_loop.simps) simp
        next
          case False
          have "clock_reads (snd (run_container_loop e step log_path max_attempts
                  (Some (APIError is_client explanation)) (attempts + 1)
                  (append_file w1 log_path (retry_log_message (attempts + 1) max_attempts))))
                = clock_reads (append_file w1 log_path (retry_log_message (attempts + 1) max_attempts))"
            using "1.IH"(1) [OF True t [symmetric] _ _ False] Inl APIError by simp
          then show ?thesis using True t w1 Inl APIError False
            by (subst run_container_loop.simps) simp
        qed
      next
        case (DockerException msg)
        then show ?thesis using True t w1 Inl
          by (subst run_container_loop.simps) simp
      next
        case (UnexpectedException msg)
        have "clock_reads (snd (run_container_loop e step log_path max_attempts
                (Some (UnexpectedException msg)) (attempts + 1)
                (append_file w1 log_path (retry_log_message (attempts + 1) max_attempts))))
              = clock_reads (append_file w1 log_path (retry_log_message (attempts + 1) max_attempts))"
          using "1.IH"(2) [OF True t [symmetric]] Inl UnexpectedException by simp
        then show ?thesis using True t w1 Inl UnexpectedException
          by (subst run_container_loop.simps) simp
      qed
    qed
  qed
qed


lemma clock_reads_run_container:
  "clock_reads (snd (run_container e step log_path max_attempts w)) = clock_reads w"
  unfolding run_container_def by (rule clock_reads_run_container_loop)

lemma clock_reads_run_step:
  "clock_reads w < clock_reads (snd (run_step e step log_path force_rerun w))"
proof -
  define w3 where "w3 = snd (match_files e (map fst (volumes step)) (match_in step)
        (snd (match_files e (map fst (volumes step)) (match_done step) (snd (datetime_now e w)))))"
  obtain res w4 where r: "run_container e step log_path 3 w3 = (res, w4)"
    by (cases "run_container e step log_path 3 w3") auto
  have "clock_reads w3 = Suc (clock_reads w)"
    by (simp add: w3_def datetime_now_def match_files_def)
  moreover have "clock_reads w4 = clock_reads w3"
    using clock_reads_run_container [of e step log_path 3 w3] r by simp
  ultimately have w4: "clock_reads w4 = Suc (clock_reads w)" by simp
  have "run_container e step log_path 3
      (snd (match_files e (map fst (volumes step)) (match_in step)
        (snd (match_files e (map fst (volumes step)) (match_done step) (snd (datetime_now e w))))))
      = (res, w4)"
    using r by (simp add: w3_def)
  then show ?thesis
    using w4
    by (cases res) (auto simp: run_step_def Let_def split_def datetime_now_def match_files_def
        split: option.splits)
qed

lemma clock_reads_run_steps:
  "run_steps e p f names ss w = Inr (rs, w') \<Longrightarrow> clock_reads w \<le> clock_reads w'"
proof (induction ss arbitrary: w rs)
  case Nil
  then show ?case by simp
next
  case (Cons s ss)
  show ?case
  proof (cases "ignored names s")
    case True
    then show ?thesis using Cons by simp
  next
    case False
    then obtain n where n: "Step.name s = Some n"
      using Cons.prems by (cases "Step.name s") auto
    obtain r w1 where r: "run_step e s (Path p (log_stem n @ ''.log'')) f w = (r, w1)"
      by (cases "run_step e s (Path p (log_stem n @ ''.log'')) f w") auto
    have w1: "clock_reads w < clock_reads w1"
      using clock_reads_run_step [of w e s "Path p (log_stem n @ ''.log'')" f] r by simp
    show ?thesis
    proof (cases "truthy_int (exit_code r)")
      case True
      then show ?thesis using Cons.prems False n r w1 by simp
    next
      case nt: False
      then obtain later where "run_steps e p f names ss w1 = Inr (later, w')"
        using Cons.prems False n r by (auto split: sum.splits)
      then show ?thesis using Cons.IH w1 by fastforce
    qed
  qed
qed

text \<open>
  The model of the run returns whenever the amended steps are named. It takes the
  log files to be writable; the source, which opens them outside the
  \<^verbatim>\<open>try\<close> block, fails where one cannot be opened.
\<close>

lemma run_pipeline_returns:
  "list_all (\<lambda>s. Step.name s \<noteq> None) (steps (amend orig given))
     \<Longrightarrow> \<exists>r w'. run_pipeline e orig p given f names w = Inr (r, w')"
proof (cases "run_steps e p f names (steps (amend orig given)) (snd (datetime_now e w))")
  case (Inl err)
  assume "list_all (\<lambda>s. Step.name s \<noteq> None) (steps (amend orig given))"
  then show ?thesis using run_steps_error [OF Inl] by (auto simp: list_all_iff list_ex_iff)
next
  case (Inr res)
  then show ?thesis by (cases res) (simp add: run_pipeline_def Let_def split_def)
qed

lemmas pipeline_eval_defs = run_pipeline_def Let_def datetime_now_def amend_def no_steps_def
  Pipeline_with_prototype_applied_def Pipeline_with_args_applied_def combine_args_def
  dict_of_items_def new_world_def

lemmas eval_defs = run_step_def run_container_def try_container_def datetime_now_def match_files_def
  write_file_def append_file_def Let_def named_step_def new_world_def second_fails_def
  truthy_int_def ignored_def log_stem_def

lemmas step_eval_defs = Step_with_args_applied_def apply_args_str_def apply_args_strs_def
  apply_args_dict_def apply_args_volumes_def safe_substitute_def find_matches.simps(2)
  closes_brace_def is_id_start_def is_id_char_def dict_of_items_def

lemmas amend_eval_defs = amend_def Pipeline_with_prototype_applied_def
  Pipeline_with_args_applied_def combine_args_def

lemmas run_eval_defs = run_step_def run_container_def try_container_def datetime_now_def
  match_files_def write_file_def append_file_def Let_def named_step_def new_world_def
  retry_log_message_def str_int_def

text \<open>
  When every attempt raises a server error before the log is opened, nothing
  erases the retry lines: the log ends with one per attempt.
\<close>

lemma exhausted_budget_keeps_markers:
  "(let (r, w) = run_step always_unavailable (named_step ''a'') (Path ''out'' ''a.log'') False new_world in
      exit_code r = Some (- 1) \<and>
      map_option (\<lambda>content. length (retry_marker_lines content)) (log_files w (Path ''out'' ''a.log''))
        = Some 3)"
  by (simp add: run_eval_defs always_unavailable_def retry_marker_lines_def)

section \<open>Claims\<close>

text \<open>
  C1. As stated the claim fails: a field of the step that is set to
  \<^verbatim>\<open>False\<close>, \<^verbatim>\<open>0\<close>, the empty string or the empty list is replaced by the
  prototype's. What holds, for a step and a prototype whose mappings list no key
  twice: without a prototype the step is returned as it is; with one, each field
  other than the two mappings keeps the step's value when that value is true
  (a string or list that is not empty, \<^verbatim>\<open>True\<close>, a number other than zero) and
  takes the prototype's value otherwise; \<^verbatim>\<open>volumes\<close> and \<^verbatim>\<open>environment\<close>
  are the prototype's mapping overlaid by the step's, so every entry of the step
  is kept.
\<close>

theorem prototype_fills_falsy_fields:
  assumes "distinct (map fst (volumes s))" and "distinct (map fst (environment s))"
    and "distinct (map fst (volumes t))" and "distinct (map fst (environment t))"
  shows "Step_with_prototype_applied s None = s \<and>
    (let m = Step_with_prototype_applied s (Some t) in
       Step.name m = (if truthy_str (Step.name s) then Step.name s else Step.name t) \<and>
       Step.description m = (if truthy_str (Step.description s) then Step.description s else Step.description t) \<and>
       image m = (if truthy_str (image s) then image s else image t) \<and>
       command m = (if truthy_list (command s) then command s else command t) \<and>
       working_dir m = (if truthy_str (working_dir s) then working_dir s else working_dir t) \<and>
       match_done m = (if truthy_list (match_done s) then match_done s else match_done t) \<and>
       match_in m = (if truthy_list (match_in s) then match_in s else match_in t) \<and>
       match_out m = (if truthy_list (match_out s) then match_out s else match_out t) \<and>
       match_summary m = (if truthy_list (match_summary s) then match_summary s else match_summary t) \<and>
       gpus m = (if truthy_bool (gpus s) then gpus s else gpus t) \<and>
       user m = (if truthy_user (user s) then user s else user t) \<and>
       network_mode m = (if truthy_str (network_mode s) then network_mode s else network_mode t) \<and>
       mac_address m = (if truthy_str (mac_address s) then mac_address s else mac_address t) \<and>
       map_of (volumes m) = map_of (volumes t) ++ map_of (volumes s) \<and>
       map_of (environment m) = map_of (environment t) ++ map_of (environment s))"
  using assms
  by (simp add: py_or_def Let_def map_of_dict_of_items map_of_rev_distinct)

theorem prototype_fills_falsy_fields_witness:
  "(let m = Step_with_prototype_applied cpu_step (Some gpu_prototype) in
      Step.name m = Some ''fit'' \<and> image m = Some ''ubuntu'' \<and> working_dir m = Some ''/work''
      \<and> map_of (volumes m) ''/data'' = Some (VolumeDetail [(''bind'', ''/d''), (''mode'', ''ro'')])
      \<and> map_of (volumes m) ''/ref'' = Some (VolumePath ''/ref'')
      \<and> map_of (environment m) ''MODE'' = Some ''fast'')"
proof -
  have "distinct (map fst (volumes cpu_step))" "distinct (map fst (environment cpu_step))"
    "distinct (map fst (volumes gpu_prototype))" "distinct (map fst (environment gpu_prototype))"
    by (simp_all add: cpu_step_def gpu_prototype_def)
  from prototype_fills_falsy_fields [OF this] show ?thesis
    by (simp add: Let_def cpu_step_def gpu_prototype_def truthy_str_def map_add_def)
qed

theorem prototype_overrides_false_counterexample:
  "gpus cpu_step = Some False
   \<and> gpus (Step_with_prototype_applied cpu_step (Some gpu_prototype)) = Some True
   \<and> user cpu_step = Some (UserId 0)
   \<and> user (Step_with_prototype_applied cpu_step (Some gpu_prototype)) = Some (UserId 1000)
   \<and> Step.description cpu_step = Some []
   \<and> Step.description (Step_with_prototype_applied cpu_step (Some gpu_prototype)) = None"
  by (simp add: cpu_step_def gpu_prototype_def py_or_def truthy_bool_def truthy_str_def)

text \<open>
  C2. Once a step result with a nonzero exit code is appended, no later step is
  attempted. Let the amended steps be \<open>pre @ s # post\<close>, let the steps of \<open>pre\<close>
  give the results \<open>rs\<close>, none with a nonzero exit code, and let \<open>s\<close> be run and
  give the result \<open>r\<close> with a nonzero exit code, leaving the world \<open>w2\<close>. Then
  the run returns with the results \<open>rs @ [r]\<close>, and the requests made to the
  engine, the queries made and the log files are those of \<open>w2\<close>: nothing of
  \<open>post\<close> is attempted. The instance below is a pipeline of three steps, with no
  name filter and no skip, whose second step exits with status 1: two results, and
  the engine is asked for the first two steps only.
\<close>

theorem run_stops_after_failure:
  assumes "steps (amend orig given) = pre @ s # post"
    and "run_steps e p f names pre (snd (datetime_now e w)) = Inr (rs, w1)"
    and "list_all (\<lambda>r. \<not> truthy_int (exit_code r)) rs"
    and "\<not> ignored names s" and "Step.name s = Some n"
    and "run_step e s (Path p (log_stem n @ ''.log'')) f w1 = (r, w2)"
    and "truthy_int (exit_code r)"
  shows "\<exists>rec w'. run_pipeline e orig p given f names w = Inr (rec, w') \<and>
           step_results rec = rs @ [r] \<and> containers_run w' = containers_run w2 \<and>
           queries_made w' = queries_made w2 \<and> log_files w' = log_files w2"
proof -
  have "run_steps e p f names (pre @ s # post) (snd (datetime_now e w)) = Inr (rs @ [r], w2)"
    using assms(2-7) by (rule run_steps_stop)
  then show ?thesis
    using assms(1) by (simp add: run_pipeline_def Let_def datetime_now_def split_def)
qed

theorem run_stops_after_failure_witness:
  "\<exists>rec w'. run_pipeline second_fails three_steps ''out'' [] False None new_world = Inr (rec, w') \<and>
      length (step_results rec) = 2 \<and>
      map exit_code (step_results rec) = [Some 0, Some 1] \<and>
      containers_run w' = [named_step ''a'', named_step ''b'']"
proof -
  define w0 where "w0 = snd (datetime_now second_fails new_world)"
  obtain r1 w1 where r1: "run_step second_fails (named_step ''a'') (Path ''out'' (log_stem ''a'' @ ''.log'')) False w0 = (r1, w1)"
    by (cases "run_step second_fails (named_step ''a'') (Path ''out'' (log_stem ''a'' @ ''.log'')) False w0") auto
  obtain r2 w2 where r2: "run_step second_fails (named_step ''b'') (Path ''out'' (log_stem ''b'' @ ''.log'')) False w1 = (r2, w2)"
    by (cases "run_step second_fails (named_step ''b'') (Path ''out'' (log_stem ''b'' @ ''.log'')) False w1") auto
  have e1: "exit_code r1 = Some 0" and c1: "containers_run w1 = [named_step ''a'']"
    using r1 by (auto simp: w0_def eval_defs)
  have e2: "exit_code r2 = Some 1" and c2: "containers_run w2 = [named_step ''a'', named_step ''b'']"
    using r2 c1 by (auto simp: eval_defs)
  have pre: "run_steps second_fails ''out'' False None [named_step ''a''] (snd (datetime_now second_fails new_world)) = Inr ([r1], w1)"
    using r1 e1 by (simp add: w0_def [symmetric] ignored_def truthy_int_def named_step_def)
  have "\<exists>rec w'. run_pipeline second_fails three_steps ''out'' [] False None new_world = Inr (rec, w') \<and>
           step_results rec = [r1] @ [r2] \<and> containers_run w' = containers_run w2 \<and>
           queries_made w' = queries_made w2 \<and> log_files w' = log_files w2"
  proof (rule run_stops_after_failure [where pre = "[named_step ''a'']" and s = "named_step ''b''"
        and post = "[named_step ''c'']" and n = "''b''"])
    show "steps (amend three_steps []) = [named_step ''a''] @ named_step ''b'' # [named_step ''c'']"
      by (simp add: amend3)
    show "run_steps second_fails ''out'' False None [named_step ''a''] (snd (datetime_now second_fails new_world)) = Inr ([r1], w1)"
      by (rule pre)
    show "list_all (\<lambda>r. \<not> truthy_int (exit_code r)) [r1]" using e1 by (simp add: truthy_int_def)
    show "\<not> ignored None (named_step ''b'')" by (simp add: ignored_def)
    show "Step.name (named_step ''b'') = Some ''b''" by (simp add: named_step_def)
    show "run_step second_fails (named_step ''b'') (Path ''out'' (log_stem ''b'' @ ''.log'')) False w1 = (r2, w2)"
      by (rule r2)
    show "truthy_int (exit_code r2)" using e2 by (simp add: truthy_int_def)
  qed
  then show ?thesis using e1 e2 c2 by auto
qed

text \<open>
  C3. The code does not do this. The step log is opened with mode \<^verbatim>\<open>'w'\<close>
  inside the loop, on every attempt that gets as far as streaming, so the retry
  lines appended after the first two attempts are erased when the third attempt
  streams. At the input below (a server error on attempts 1 and 2, exit status 0 on
  attempt 3) the result is not skipped and has exit code 0 after three requests,
  but the log holds the output of the third attempt only, and no retry line.
\<close>

theorem retry_markers_lost:
  "(let (r, w) = run_step recovers_on_third (named_step ''a'') (Path ''out'' ''a.log'') False new_world in
      skipped r = False \<and> exit_code r = Some 0 \<and> length (containers_run w) = 3
      \<and> log_files w (Path ''out'' ''a.log'') = Some (''hello'' @ [CHR 0x0A])
      \<and> retry_marker_lines (''hello'' @ [CHR 0x0A]) = [])"
  by (simp add: run_eval_defs recovers_on_third_def retry_marker_lines_def)

text \<open>
  C4. When the engine call of an attempt raises a client-side error (an
  \<^verbatim>\<open>APIError\<close> whose \<^verbatim>\<open>is_client_error()\<close> holds), wherever in the attempt
  it is raised and whatever the attempts made so far and the budget left, the loop
  returns at once with no container, exit code \<open>-1\<close> and that error, having asked
  the engine exactly once more; no retry line is written.
\<close>

theorem client_error_not_retried:
  assumes "attempts < max_attempts"
    and "engine e (length (containers_run w)) step = RaisedBeforeLog (APIError True msg)
       \<or> engine e (length (containers_run w)) step = RaisedAfterLog chunks (APIError True msg)"
  shows "fst (run_container_loop e step log_path max_attempts retried attempts w)
           = (None, - 1, Some (APIError True msg))
       \<and> containers_run (snd (run_container_loop e step log_path max_attempts retried attempts w))
           = containers_run w @ [step]
       \<and> snd (run_container_loop e step log_path max_attempts retried attempts w)
           = snd (try_container e step log_path w)"
  using assms by (auto simp: try_container_def Let_def write_file_def)

theorem client_error_not_retried_witness:
  "fst (run_container client_error (named_step ''a'') (Path ''out'' ''a.log'') 3 new_world)
     = (None, - 1, Some (APIError True ''invalid reference format''))
   \<and> containers_run (snd (run_container client_error (named_step ''a'') (Path ''out'' ''a.log'') 3 new_world))
     = [named_step ''a'']
   \<and> log_files (snd (run_container client_error (named_step ''a'') (Path ''out'' ''a.log'') 3 new_world))
        (Path ''out'' ''a.log'') = None"
  using client_error_not_retried [of 0 3 client_error new_world "named_step ''a''"
      "''invalid reference format''" "[]" "Path ''out'' ''a.log''" None]
  by (simp add: run_container_def client_error_def new_world_def try_container_def)

text \<open>
  C5. When the \<^verbatim>\<open>match_done\<close> patterns of a step match at least one file in its
  volume directories and \<^verbatim>\<open>force_rerun\<close> is not set, \<^verbatim>\<open>run_step\<close> gives a result
  with \<^verbatim>\<open>skipped\<close> true, the matches as \<^verbatim>\<open>files_done\<close> (not empty), no exit
  code and a timing with a start only, and the engine is not asked.
\<close>

theorem done_step_skipped:
  assumes "list_ex (\<lambda>(d, fs). fs \<noteq> [])
             (match_patterns_in_dirs e (queries_made w) (map fst (volumes step)) (match_done step))"
    and "\<not> force_rerun"
  shows "skipped (fst (run_step e step log_path force_rerun w))
       \<and> files_done (fst (run_step e step log_path force_rerun w))
           = match_patterns_in_dirs e (queries_made w) (map fst (volumes step)) (match_done step)
       \<and> files_done (fst (run_step e step log_path force_rerun w)) \<noteq> []
       \<and> exit_code (fst (run_step e step log_path force_rerun w)) = None
       \<and> StepResult.timing (fst (run_step e step log_path force_rerun w))
           = Some \<lparr>start = Some (now e (clock_reads w)), finish = None, duration = None\<rparr>
       \<and> containers_run (snd (run_step e step log_path force_rerun w)) = containers_run w"
proof -
  have "match_patterns_in_dirs e (queries_made w) (map fst (volumes step)) (match_done step) \<noteq> []"
    using assms(1) by auto
  then show ?thesis
    using assms(2) by (simp add: run_step_def datetime_now_def match_files_def Let_def)
qed

theorem done_step_skipped_witness:
  "skipped (fst (run_step done_found done_step (Path ''out'' ''fit.log'') False new_world))
   \<and> files_done (fst (run_step done_found done_step (Path ''out'' ''fit.log'') False new_world))
       = [(''/data'', [(''done.txt'', ''sha256:1'')])]
   \<and> exit_code (fst (run_step done_found done_step (Path ''out'' ''fit.log'') False new_world)) = None
   \<and> containers_run (snd (run_step done_found done_step (Path ''out'' ''fit.log'') False new_world)) = []"
  using done_step_skipped [of done_found new_world done_step False "Path ''out'' ''fit.log''"]
  by (simp add: done_found_def done_step_def named_step_def new_world_def)

text \<open>
  C6. The amendment never changes an object that exists. When it returns, the new
  store keeps the old one: every object the store held before, the original
  pipeline and every step, mapping and list reachable from it among them, is
  there unchanged; and the amended pipeline is an object allocated by the
  amendment, not one of the store before.
\<close>

theorem amend_keeps_original:
  assumes "amend_h n orig given h = Some (v, h')"
  shows "length h \<le> length h' \<and> take (length h) h' = h
       \<and> (\<exists>r. v = HRef r \<and> length h \<le> r \<and> r < length h')"
proof -
  from assms obtain p h1 where a: "Pipeline_with_args_applied_h n orig given h = Some (p, h1)"
    and b: "Pipeline_with_prototype_applied_h p h1 = Some (v, h')"
    by (auto simp: amend_h_def bind_eq_Some_conv)
  have k1: "kept h h1" using kept_Pipeline_with_args_applied_h [OF a] by simp
  have k2: "kept h1 h'" and "\<exists>r. v = HRef r \<and> length h1 \<le> r \<and> r < length h'"
    using kept_Pipeline_with_prototype_applied_h [OF b] by simp_all
  moreover have "length h \<le> length h1" using k1 by (simp add: kept_def)
  moreover have "kept h h'" using k1 k2 by (rule kept_trans)
  ultimately show ?thesis by (auto simp: kept_def)
qed

theorem amend_keeps_original_witness:
  "\<exists>h'. amend_h 3 (HRef 9) (HRef 10) ex_heap = Some (HRef 35, h')
        \<and> take (length ex_heap) h' = ex_heap \<and> length ex_heap = 11"
proof -
  obtain h' where a: "amend_h 3 (HRef 9) (HRef 10) ex_heap = Some (HRef 35, h')"
    using ex_amend by auto
  have "length ex_heap = 11" by (simp add: ex_heap_def)
  then show ?thesis using a amend_keeps_original [OF a] by auto
qed




text \<open>
  C8. As stated the claim fails: with no arguments at all, \<^verbatim>\<open>safe_substitute\<close>
  still turns the escape \<^verbatim>\<open>$$\<close> into \<^verbatim>\<open>$\<close>. What holds: for a pipeline
  with no declared arguments and no prototype, whose steps hold no string with two
  adjacent delimiters and no mapping that lists a key twice, the amended steps are
  the steps.
\<close>

theorem amend_no_args_identity:
  assumes "args P = []" and "prototype P = None"
    and "list_all escape_free (steps P)" and "list_all step_dicts_distinct (steps P)"
  shows "steps (amend P []) = steps P"
proof -
  have "map (\<lambda>step. Step_with_args_applied step []) (steps P) = steps P"
    using assms(3,4) by (intro map_idI) (simp add: list_all_iff Step_with_args_applied_no_args)
  then show ?thesis
    using assms(1,2)
    by (simp add: amend_def Pipeline_with_prototype_applied_def Pipeline_with_args_applied_def
        combine_args_def dict_of_items_def)
qed

theorem amend_no_args_identity_witness:
  "args three_steps = [] \<and> prototype three_steps = None
   \<and> list_all escape_free (steps three_steps) \<and> list_all step_dicts_distinct (steps three_steps)
   \<and> steps (amend three_steps []) = [named_step ''a'', named_step ''b'', named_step ''c'']"
proof -
  have 1: "args three_steps = []" and 2: "prototype three_steps = None"
    by (simp_all add: three_steps_def)
  have 3: "list_all escape_free (steps three_steps)"
    by (simp add: three_steps_def escape_free_def step_values_def named_step_def py_str_def
        py_strs_def py_dict_def py_volumes_def py_bool_def)
  have 4: "list_all step_dicts_distinct (steps three_steps)"
    by (simp add: three_steps_def step_dicts_distinct_def step_values_def named_step_def py_str_def
        py_strs_def py_dict_def py_volumes_def py_bool_def)
  show ?thesis
    using 1 2 3 4 amend_no_args_identity [OF 1 2 3 4] by (simp add: three_steps_def)
qed

theorem amend_unescapes_counterexample:
  "args escaped_command = [] \<and> prototype escaped_command = None
   \<and> map command (steps escaped_command) = [[''echo'', ''$$HOME'']]
   \<and> map command (steps (amend escaped_command [])) = [[''echo'', ''$HOME'']]
   \<and> steps (amend escaped_command []) \<noteq> steps escaped_command"
  by (simp add: escaped_command_def named_step_def amend_eval_defs step_eval_defs)

text \<open>
  C9. The code does not do this when the run loop returns an exception: the result
  built on that path carries the name, the log file, the timing and the exit code
  only, so the matches of \<^verbatim>\<open>match_in\<close>, found before the container was
  run, are dropped. At the input below the query for \<^verbatim>\<open>match_in\<close> (the second
  query of the step) finds a file, the engine raises a client error, and
  \<^verbatim>\<open>files_in\<close> of the result is empty.
\<close>

theorem failed_step_drops_files_in:
  "(let (r, w) = run_step inputs_then_client_error input_step (Path ''out'' ''fit.log'') False new_world in
      skipped r = False \<and> exit_code r = Some (- 1)
      \<and> match_patterns_in_dirs inputs_then_client_error 1 (map fst (volumes input_step)) (match_in input_step)
           = [(''/data'', [(''in.txt'', ''sha256:2'')])]
      \<and> queries_made w = 2
      \<and> files_in r = [])"
  by (simp add: run_eval_defs inputs_then_client_error_def input_step_def)

text \<open>
  C10. As stated the claim fails where the clock does not advance:
  \<^verbatim>\<open>Timing._is_complete\<close> asks for a duration greater than zero, and the
  duration is the difference of two readings of the clock. What holds: every run
  that returns gives a record whose timing has its start, its finish and its
  duration set, on every path, also when a step fails and the run stops, when
  every step is skipped or ignored, and when there is no step. The start is the
  reading taken when the run begins, the finish is a later reading, the last one
  of the run, and the duration is their difference. The timing is complete exactly
  when the finish is greater than the start.
\<close>

theorem run_pipeline_timing:
  "case run_pipeline e orig p given f names w of
     Inl err \<Rightarrow> True
   | Inr (r, w') \<Rightarrow>
       (\<exists>k. clock_reads w < k \<and> clock_reads w' = Suc k \<and>
          ExecutionRecord.timing r
            = Some \<lparr>start = Some (now e (clock_reads w)), finish = Some (now e k),
                    duration = Some (now e k - now e (clock_reads w))\<rparr> \<and>
          Timing_is_complete
              \<lparr>start = Some (now e (clock_reads w)), finish = Some (now e k),
               duration = Some (now e k - now e (clock_reads w))\<rparr>
            = Inr (now e (clock_reads w) < now e k))"
proof (cases "run_steps e p f names (steps (amend orig given)) (snd (datetime_now e w))")
  case (Inl err)
  then show ?thesis by (simp add: run_pipeline_def Let_def split_def)
next
  case (Inr res)
  obtain rs w2 where res: "res = (rs, w2)" by (cases res)
  have "clock_reads (snd (datetime_now e w)) \<le> clock_reads w2"
    using clock_reads_run_steps Inr res by blast
  then have "clock_reads w < clock_reads w2" by (simp add: datetime_now_def)
  then show ?thesis
    using Inr res
    by (simp add: run_pipeline_def Let_def split_def datetime_now_def Timing_is_complete_def)
qed

theorem run_pipeline_timing_witness:
  "(\<exists>r w'. run_pipeline second_fails no_steps ''out'' [] False None new_world = Inr (r, w')
      \<and> ExecutionRecord.timing r = Some \<lparr>start = Some 0, finish = Some 1, duration = Some 1\<rparr>
      \<and> Timing_is_complete \<lparr>start = Some 0, finish = Some 1, duration = Some 1\<rparr> = Inr True
      \<and> step_results r = [])"
  using run_pipeline_timing [where e = second_fails and orig = no_steps and p = "''out''"
      and given = "[]" and f = False and names = None and w = new_world]
  by (simp add: pipeline_eval_defs second_fails_def Timing_is_complete_def)

theorem frozen_clock_counterexample:
  "(\<exists>r w'. run_pipeline frozen_clock no_steps ''out'' [] False None new_world = Inr (r, w')
      \<and> ExecutionRecord.timing r = Some \<lparr>start = Some 0, finish = Some 0, duration = Some 0\<rparr>
      \<and> Timing_is_complete \<lparr>start = Some 0, finish = Some 0, duration = Some 0\<rparr> = Inr False)"
  by (simp add: pipeline_eval_defs frozen_clock_def Timing_is_complete_def)

end
